theory Spec2Isabelle
  imports Main "HOL-Library.Word" "HOL-Library.Signed_Division" "HOL-Library.Char_ord"
begin

section \<open>The duration types of the standard library\<close>

text \<open>
  \<open>to_duration\<close> is a template over the target type \<open>Duration\<close>; the six instances the
  parser itself names are \<open>std::chrono::nanoseconds\<close> ... \<open>std::chrono::hours\<close>. Their tick
  count (\<open>Duration::rep\<close>) is a signed 64-bit integer (\<open>int64_t\<close> in libstdc++ for all six).
  It is modelled as \<open>64 word\<close>, read through \<open>sint\<close>: an operation whose result does not
  fit, which C++ leaves undefined, yields the two's complement result.
\<close>

type_synonym rep = "64 word"

datatype duration_type =
  Nanoseconds | Microseconds | Milliseconds | Seconds | Minutes | Hours

text \<open>The period of each duration type, as a number of nanoseconds per tick
  (\<open>std::nano\<close>, \<open>std::micro\<close>, \<open>std::milli\<close>, \<open>std::ratio<1>\<close>, \<open>std::ratio<60>\<close>,
  \<open>std::ratio<3600>\<close>).\<close>

fun period :: "duration_type \<Rightarrow> nat" where
  "period Nanoseconds = 1"
| "period Microseconds = 1000"
| "period Milliseconds = 1000000"
| "period Seconds = 1000000000"
| "period Minutes = 60000000000"
| "period Hours = 3600000000000"

text \<open>Integer division of C++: the quotient is truncated towards zero.\<close>

definition rep_div :: "rep \<Rightarrow> rep \<Rightarrow> rep" where
  "rep_div a b = word_of_int (sint a sdiv sint b)"

text \<open>
  \<open>std::chrono::duration_cast<To>(From(n))\<close>. With \<open>CF = From::period / To::period\<close> in lowest
  terms the standard library multiplies by \<open>CF::num\<close> when \<open>CF::den = 1\<close> and divides by
  \<open>CF::den\<close> when \<open>CF::num = 1\<close>; among the six periods one always divides the other, so
  these are the only two cases.
\<close>

definition duration_cast :: "duration_type \<Rightarrow> duration_type \<Rightarrow> rep \<Rightarrow> rep" where
  "duration_cast To From n =
     (if period To \<le> period From
      then n * of_nat (period From div period To)
      else rep_div n (of_nat (period To div period From)))"

section \<open>The scanner\<close>

text \<open>
  The iterators \<open>first\<close>, \<open>it\<close> and \<open>last\<close> are positions in a character buffer \<open>mem\<close>.
  Dereferencing a position inside the buffer yields its character; a position outside it
  cannot be read at all, which the model reports as \<open>Out_of_bounds\<close>.
  \<open>Invalid_argument\<close> is the \<open>std::invalid_argument\<close> thrown by the parser.
\<close>

datatype error = Invalid_argument | Out_of_bounds

definition deref :: "string \<Rightarrow> nat \<Rightarrow> char option" where
  "deref mem it = (if it < length mem then Some (mem ! it) else None)"

text \<open>The inner loop (lines 93-100): it consumes decimal digits and accumulates the
  \<^emph>\<open>negated\<close> magnitude, \<open>n = n * 10 - (*it - '0')\<close>.\<close>

function digits_loop :: "string \<Rightarrow> nat \<Rightarrow> nat \<Rightarrow> rep \<Rightarrow> error + nat \<times> rep" where
  "digits_loop mem lim it n =
     (if it \<noteq> lim then
        (case deref mem it of
           None \<Rightarrow> Inl Out_of_bounds
         | Some c \<Rightarrow>
             if CHR ''0'' \<le> c \<and> c \<le> CHR ''9''
             then digits_loop mem lim (it + 1)
                    (n * 10 - of_nat (of_char c - of_char CHR ''0''))
             else Inr (it, n))
      else Inr (it, n))"
  by pat_completeness auto
termination
  by (relation "measure (\<lambda>(mem, lim, it, n). length mem - it)")
     (auto simp: deref_def split: if_splits)

declare digits_loop.simps [simp del]

text \<open>
  The \<open>switch (*it)\<close> on the unit suffix (lines 102-145) together with the \<open>it++\<close> that
  ends every iteration (line 146). It returns the cursor after the suffix and the new
  value of the accumulator \<open>tmp\<close>. In the case \<open>m\<close> the cursor is advanced to the
  lookahead character, stepped back when that is not \<open>s\<close>, and advanced again by the
  final \<open>it++\<close>.
\<close>

definition unit_switch ::
  "duration_type \<Rightarrow> string \<Rightarrow> nat \<Rightarrow> rep \<Rightarrow> rep \<Rightarrow> error + nat \<times> rep" where
  "unit_switch D mem it n tmp =
     (case deref mem it of
        None \<Rightarrow> Inl Out_of_bounds
      | Some c \<Rightarrow>
          if c = CHR ''n'' then
            (case deref mem (it + 1) of
               None \<Rightarrow> Inl Out_of_bounds
             | Some c' \<Rightarrow>
                 if c' = CHR ''s''
                 then Inr (it + 1 + 1, tmp + duration_cast D Nanoseconds n)
                 else Inl Invalid_argument)
          else if c = CHR ''u'' then
            (case deref mem (it + 1) of
               None \<Rightarrow> Inl Out_of_bounds
             | Some c' \<Rightarrow>
                 if c' = CHR ''s''
                 then Inr (it + 1 + 1, tmp + duration_cast D Microseconds n)
                 else Inl Invalid_argument)
          else if c = CHR ''m'' then
            (case deref mem (it + 1) of
               None \<Rightarrow> Inl Out_of_bounds
             | Some c' \<Rightarrow>
                 if c' = CHR ''s''
                 then Inr (it + 1 + 1, tmp + duration_cast D Milliseconds n)
                 else Inr (it + 1 - 1 + 1, tmp + duration_cast D Minutes n))
          else if c = CHR ''s'' then
            Inr (it + 1, tmp + duration_cast D Seconds n)
          else if c = CHR ''h'' then
            Inr (it + 1, tmp + duration_cast D Hours n)
          else Inl Invalid_argument)"

text \<open>
  One iteration of the outer loop (lines 90-146): optional sign, digits, sign
  correction (the digit loop has accumulated the negated magnitude), unit suffix.
\<close>

definition component ::
  "duration_type \<Rightarrow> string \<Rightarrow> nat \<Rightarrow> nat \<Rightarrow> rep \<Rightarrow> error + nat \<times> rep" where
  "component D mem lim it tmp =
     (case deref mem it of
        None \<Rightarrow> Inl Out_of_bounds
      | Some c0 \<Rightarrow>
          let neg = (c0 = CHR ''-'');
              it1 = (if c0 = CHR ''+'' \<or> c0 = CHR ''-'' then it + 1 else it)
          in case digits_loop mem lim it1 0 of
               Inl e \<Rightarrow> Inl e
             | Inr (it2, n0) \<Rightarrow>
                 let n = (if neg then n0 else - n0)
                 in unit_switch D mem it2 n tmp)"

lemma digits_loop_advances:
  "digits_loop mem lim it n = Inr (it2, n2) \<Longrightarrow> it \<le> it2"
proof (induction mem lim it n rule: digits_loop.induct)
  case (1 mem lim it n)
  from "1.prems" show ?case
    by (subst (asm) digits_loop.simps)
       (auto split: if_splits option.splits dest!: "1.IH")
qed

lemma component_advances:
  assumes "component D mem lim it tmp = Inr (it', tmp')"
  shows "it < it' \<and> it' \<le> length mem"
  using assms
  by (auto simp: component_def unit_switch_def deref_def Let_def
           split: if_splits sum.splits dest!: digits_loop_advances)

text \<open>
  The outer loop \<open>while (it != last)\<close> (lines 89-147) and the function itself, on the
  iterator range \<open>[first, last)\<close> of a buffer.
\<close>

function to_duration_loop ::
  "duration_type \<Rightarrow> string \<Rightarrow> nat \<Rightarrow> nat \<Rightarrow> rep \<Rightarrow> error + rep" where
  "to_duration_loop D mem lim it tmp =
     (if it \<noteq> lim then
        (case component D mem lim it tmp of
           Inl e \<Rightarrow> Inl e
         | Inr (it', tmp') \<Rightarrow> to_duration_loop D mem lim it' tmp')
      else Inr tmp)"
  by pat_completeness auto
termination
proof (relation "measure (\<lambda>(D, mem, lim, it, tmp). length mem - it)")
  show "wf (measure (\<lambda>(D, mem, lim, it, tmp). length mem - it))"
    by simp
next
  fix D :: duration_type and mem :: string and lim it :: nat and tmp :: rep
    and x2 :: "nat \<times> rep" and it' :: nat and tmp' :: rep
  assume "component D mem lim it tmp = Inr x2" and "(it', tmp') = x2"
  then have "it < it' \<and> it' \<le> length mem"
    using component_advances [of D mem lim it tmp it' tmp'] by simp
  then show "((D, mem, lim, it', tmp'), (D, mem, lim, it, tmp))
               \<in> measure (\<lambda>(D, mem, lim, it, tmp). length mem - it)"
    by (simp add: diff_less_mono2)
qed

declare to_duration_loop.simps [simp del]

definition to_duration_range ::
  "duration_type \<Rightarrow> string \<Rightarrow> nat \<Rightarrow> nat \<Rightarrow> error + rep" where
  "to_duration_range D mem first lim = to_duration_loop D mem lim first 0"

text \<open>
  The overloads for strings (lines 151-180) all end in a \<open>std::basic_string\<close> and pass
  \<open>cbegin()\<close> and \<open>cend()\<close>. The characters of a \<open>basic_string\<close> are stored with a
  terminating null character at position \<open>size()\<close>, which is what a read through \<open>cend()\<close>
  finds (the test \<open>minutes\<close> of the repository, \<open>1m\<close>, depends on it). The model is for strings
  of \<open>char\<close>.
\<close>

definition c_str :: "string \<Rightarrow> string" where
  "c_str str = str @ [CHR 0x00]"

definition to_duration :: "duration_type \<Rightarrow> string \<Rightarrow> error + rep" where
  "to_duration D str = to_duration_range D (c_str str) 0 (length str)"

section \<open>The cost of a run\<close>

text \<open>
  The cost of a run, counted in executions of a loop body: \<open>T_digits_loop\<close> counts the
  bodies of the inner loop, \<open>T_component\<close> adds one for the body of the outer loop that
  contains it, and \<open>T_to_duration_loop\<close> sums over the iterations of the outer loop.
\<close>

function T_digits_loop :: "string \<Rightarrow> nat \<Rightarrow> nat \<Rightarrow> nat" where
  "T_digits_loop mem lim it =
     (if it \<noteq> lim then
        (case deref mem it of
           None \<Rightarrow> 1
         | Some c \<Rightarrow>
             if CHR ''0'' \<le> c \<and> c \<le> CHR ''9''
             then 1 + T_digits_loop mem lim (it + 1)
             else 1)
      else 0)"
  by pat_completeness auto
termination
  by (relation "measure (\<lambda>(mem, lim, it). length mem - it)")
     (auto simp: deref_def split: if_splits)

declare T_digits_loop.simps [simp del]

definition T_component :: "string \<Rightarrow> nat \<Rightarrow> nat \<Rightarrow> nat" where
  "T_component mem lim it =
     (case deref mem it of
        None \<Rightarrow> 1
      | Some c0 \<Rightarrow>
          1 + T_digits_loop mem lim (if c0 = CHR ''+'' \<or> c0 = CHR ''-'' then it + 1 else it))"

function T_to_duration_loop ::
  "duration_type \<Rightarrow> string \<Rightarrow> nat \<Rightarrow> nat \<Rightarrow> rep \<Rightarrow> nat" where
  "T_to_duration_loop D mem lim it tmp =
     (if it \<noteq> lim then
        T_component mem lim it +
        (case component D mem lim it tmp of
           Inl e \<Rightarrow> 0
         | Inr (it', tmp') \<Rightarrow> T_to_duration_loop D mem lim it' tmp')
      else 0)"
  by pat_completeness auto
termination
proof (relation "measure (\<lambda>(D, mem, lim, it, tmp). length mem - it)")
  show "wf (measure (\<lambda>(D, mem, lim, it, tmp). length mem - it))"
    by simp
next
  fix D :: duration_type and mem :: string and lim it :: nat and tmp :: rep
    and x2 :: "nat \<times> rep" and it' :: nat and tmp' :: rep
  assume "component D mem lim it tmp = Inr x2" and "(it', tmp') = x2"
  then have "it < it' \<and> it' \<le> length mem"
    using component_advances [of D mem lim it tmp it' tmp'] by simp
  then show "((D, mem, lim, it', tmp'), (D, mem, lim, it, tmp))
               \<in> measure (\<lambda>(D, mem, lim, it, tmp). length mem - it)"
    by (simp add: diff_less_mono2)
qed

declare T_to_duration_loop.simps [simp del]

definition T_to_duration :: "duration_type \<Rightarrow> string \<Rightarrow> nat" where
  "T_to_duration D str = T_to_duration_loop D (c_str str) (length str) 0 0"

section \<open>The textual format\<close>

text \<open>
  The documented input format is \<open>([+-]?\d+(ns|us|ms|s|m|h))*\<close>. The following notions
  describe its parts: decimal digits and the number a run of digits denotes, and the
  suffix of each duration type.
\<close>

definition is_digit :: "char \<Rightarrow> bool" where
  "is_digit c \<longleftrightarrow> CHR ''0'' \<le> c \<and> c \<le> CHR ''9''"

definition digit_value :: "char \<Rightarrow> nat" where
  "digit_value c = of_char c - of_char CHR ''0''"

definition decimal :: "string \<Rightarrow> nat" where
  "decimal ds = foldl (\<lambda>v c. v * 10 + digit_value c) 0 ds"

fun suffix :: "duration_type \<Rightarrow> string" where
  "suffix Nanoseconds = ''ns''"
| "suffix Microseconds = ''us''"
| "suffix Milliseconds = ''ms''"
| "suffix Seconds = ''s''"
| "suffix Minutes = ''m''"
| "suffix Hours = ''h''"

text \<open>The tick count a signed run of digits denotes, in the arithmetic of \<open>rep\<close>.\<close>

definition raw_count :: "string \<Rightarrow> string \<Rightarrow> rep" where
  "raw_count sg ds = (if sg = ''-'' then - of_nat (decimal ds) else of_nat (decimal ds))"

text \<open>The integer a signed run of digits denotes.\<close>

definition signed_decimal :: "string \<Rightarrow> string \<Rightarrow> int" where
  "signed_decimal sg ds = (if sg = ''-'' then - int (decimal ds) else int (decimal ds))"

text \<open>
  Standard sign-magnitude accumulation: accumulate the unsigned magnitude digit by digit,
  then negate it if a leading minus was seen.
\<close>

definition sign_magnitude :: "string \<Rightarrow> string \<Rightarrow> rep" where
  "sign_magnitude sg ds =
     (let m = foldl (\<lambda>m c. m * 10 + of_nat (digit_value c)) 0 ds
      in if sg = ''-'' then - m else m)"

section \<open>Evaluation on concrete inputs\<close>

lemmas to_duration_eval =
  to_duration_def to_duration_range_def c_str_def to_duration_loop.simps component_def
  unit_switch_def digits_loop.simps deref_def duration_cast_def rep_div_def Let_def

section \<open>The digit loop\<close>

lemma foldl_digit_step:
  "foldl (\<lambda>n c. n * 10 - of_nat (digit_value c)) (- of_nat v) ds
     = (- of_nat (foldl (\<lambda>v c. v * 10 + digit_value c) v ds) :: rep)"
proof (induction ds arbitrary: v)
  case Nil
  show ?case by simp
next
  case (Cons d ds)
  have "(- of_nat v * 10 - of_nat (digit_value d) :: rep) = - of_nat (v * 10 + digit_value d)"
    by simp
  then show ?case
    using Cons.IH [of "v * 10 + digit_value d"] by simp
qed

lemma digits_loop_run:
  assumes "\<forall>d \<in> set ds. is_digit d" and "\<not> is_digit c"
    and "mem = pre @ ds @ c # rest" and "length pre + length ds \<le> lim"
  shows "digits_loop mem lim (length pre) n
           = Inr (length pre + length ds,
                  foldl (\<lambda>n c. n * 10 - of_nat (digit_value c)) n ds)"
  using assms
proof (induction ds arbitrary: pre n)
  case Nil
  then show ?case
    by (subst digits_loop.simps) (auto simp add: deref_def is_digit_def)
next
  case (Cons d ds)
  from Cons.prems have d: "is_digit d" and len: "length pre \<noteq> lim"
    and mem: "mem = (pre @ [d]) @ ds @ c # rest"
    and lim: "length (pre @ [d]) + length ds \<le> lim"
    by simp_all
  have "digits_loop mem lim (length (pre @ [d])) (n * 10 - of_nat (digit_value d))
          = Inr (length (pre @ [d]) + length ds,
                 foldl (\<lambda>n c. n * 10 - of_nat (digit_value c)) (n * 10 - of_nat (digit_value d)) ds)"
    using Cons.prems(1,2) by (intro Cons.IH [OF _ _ mem lim]) simp_all
  moreover have "deref mem (length pre) = Some d"
    using Cons.prems(3) by (simp add: deref_def)
  ultimately show ?case
    using d len by (subst digits_loop.simps) (simp add: is_digit_def digit_value_def)
qed

lemma digits_loop_decimal:
  assumes "\<forall>d \<in> set ds. is_digit d" and "\<not> is_digit c"
    and "mem = pre @ ds @ c # rest" and "length pre + length ds \<le> lim"
  shows "digits_loop mem lim (length pre) 0 = Inr (length pre + length ds, - of_nat (decimal ds))"
  using digits_loop_run [OF assms, of 0] foldl_digit_step [of 0 ds]
  by (simp add: decimal_def)

section \<open>Running one component\<close>

lemma is_digit_not_sign: "is_digit d \<Longrightarrow> d \<noteq> CHR ''+'' \<and> d \<noteq> CHR ''-''"
  by (auto simp: is_digit_def)

lemma is_digit_not_suffix: "is_digit d \<Longrightarrow> d \<noteq> hd (suffix U)"
  by (cases U) (auto simp: is_digit_def)

lemma suffix_first:
  "suffix U = c # cs \<Longrightarrow> \<not> is_digit c \<and> c \<noteq> CHR ''+'' \<and> c \<noteq> CHR ''-''"
  by (cases U) (auto simp: is_digit_def)

lemma component_run:
  assumes sg: "sg \<in> {'''', ''+'', ''-''}" and ds: "\<forall>d \<in> set ds. is_digit d"
    and c: "\<not> is_digit c" "sg = [] \<and> ds = [] \<longrightarrow> c \<noteq> CHR ''+'' \<and> c \<noteq> CHR ''-''"
    and mem: "mem = pre @ sg @ ds @ c # rest"
    and lim: "length pre + length sg + length ds \<le> lim"
  shows "component D mem lim (length pre) tmp
           = unit_switch D mem (length pre + length sg + length ds) (raw_count sg ds) tmp"
proof (cases "sg = []")
  case True
  have first: "deref mem (length pre) = Some (hd (ds @ [c]))"
    using mem True by (cases ds) (simp_all add: deref_def)
  have nosign: "hd (ds @ [c]) \<noteq> CHR ''+'' \<and> hd (ds @ [c]) \<noteq> CHR ''-''"
    using ds c(2) True by (cases ds) (simp_all add: is_digit_not_sign)
  have "digits_loop mem lim (length pre) 0
          = Inr (length pre + length ds, - of_nat (decimal ds))"
    using ds c(1) mem lim True by (intro digits_loop_decimal [where rest = rest and c = c]) simp_all
  then show ?thesis
    using first nosign True by (simp add: component_def raw_count_def)
next
  case False
  then obtain s where s: "sg = [s]" "s = CHR ''+'' \<or> s = CHR ''-''"
    using sg by auto
  have first: "deref mem (length pre) = Some s"
    using mem s by (simp add: deref_def)
  have "digits_loop mem lim (length (pre @ sg)) 0
          = Inr (length (pre @ sg) + length ds, - of_nat (decimal ds))"
    using ds c(1) mem lim by (intro digits_loop_decimal [where rest = rest and c = c]) simp_all
  then show ?thesis
    using first s by (auto simp add: component_def raw_count_def)
qed

lemma unit_switch_suffix:
  assumes "mem = p @ suffix U @ rest" and "rest \<noteq> []"
    and "U = Minutes \<longrightarrow> hd rest \<noteq> CHR ''s''"
  shows "unit_switch D mem (length p) n tmp
           = Inr (length p + length (suffix U), tmp + duration_cast D U n)"
  using assms by (cases U; cases rest) (simp_all add: unit_switch_def deref_def nth_append)

lemma loop_component:
  assumes sg: "sg \<in> {'''', ''+'', ''-''}" and ds: "\<forall>d \<in> set ds. is_digit d"
    and str: "str = pre @ sg @ ds @ suffix U @ rest"
    and look: "U = Minutes \<longrightarrow> rest = [] \<or> hd rest \<noteq> CHR ''s''"
  shows "to_duration_loop D (c_str str) (length str) (length pre) tmp
           = to_duration_loop D (c_str str) (length str)
               (length pre + length sg + length ds + length (suffix U))
               (tmp + duration_cast D U (raw_count sg ds))"
proof -
  obtain c cs where suf: "suffix U = c # cs"
    by (cases U) simp_all
  have c: "\<not> is_digit c" "c \<noteq> CHR ''+'' \<and> c \<noteq> CHR ''-''"
    using suf suffix_first [of U c cs] by simp_all
  have mem: "c_str str = pre @ sg @ ds @ c # (cs @ rest @ [CHR 0x00])"
    using str suf by (simp add: c_str_def)
  have comp: "component D (c_str str) (length str) (length pre) tmp
           = unit_switch D (c_str str) (length pre + length sg + length ds) (raw_count sg ds) tmp"
    using sg ds c mem str by (intro component_run [where rest = "cs @ rest @ [CHR 0x00]" and c = c]) simp_all
  have "c_str str = (pre @ sg @ ds) @ suffix U @ (rest @ [CHR 0x00])"
    using str by (simp add: c_str_def)
  from unit_switch_suffix [OF this, of D "raw_count sg ds" tmp] look
  have "unit_switch D (c_str str) (length pre + length sg + length ds) (raw_count sg ds) tmp
          = Inr (length pre + length sg + length ds + length (suffix U),
                 tmp + duration_cast D U (raw_count sg ds))"
    by (cases rest) (simp_all add: add.assoc)
  with comp have "component D (c_str str) (length str) (length pre) tmp
          = Inr (length pre + length sg + length ds + length (suffix U),
                 tmp + duration_cast D U (raw_count sg ds))"
    by simp
  moreover have "length pre \<noteq> length str"
    using str suf by simp
  ultimately show ?thesis
    using to_duration_loop.simps [of D "c_str str" "length str" "length pre" tmp] by simp
qed

lemma loop_end: "to_duration_loop D mem lim lim tmp = Inr tmp"
  by (simp add: to_duration_loop.simps)

section \<open>The scanner on the rest of a buffer\<close>

text \<open>Scanning a buffer from a position behind a prefix \<open>A\<close> is scanning the buffer
  without \<open>A\<close>, with all positions shifted by the length of \<open>A\<close>.\<close>

lemma deref_shift: "deref (A @ X) (length A + i) = deref X i"
  by (simp add: deref_def)

lemma deref_shift_Suc: "deref (A @ X) (Suc (length A + i)) = deref X (Suc i)"
  using deref_shift [of A X "Suc i"] by simp

lemma digits_loop_shift:
  "digits_loop (A @ X) (length A + l) (length A + i) n
     = map_sum id (\<lambda>(j, m). (length A + j, m)) (digits_loop X l i n)"
proof (induction X l i n rule: digits_loop.induct)
  case (1 X l i n)
  show ?case
  proof (cases "i \<noteq> l \<and> (\<exists>c. deref X i = Some c \<and> CHR ''0'' \<le> c \<and> c \<le> CHR ''9'')")
    case True
    then obtain c where c: "i \<noteq> l" "deref X i = Some c" "CHR ''0'' \<le> c \<and> c \<le> CHR ''9''"
      by blast
    from "1.IH" [OF c(1,2) c(3)] c show ?thesis
      by (subst digits_loop.simps, subst (2) digits_loop.simps)
         (simp add: deref_shift add.assoc id_def)
  next
    case False
    then show ?thesis
      by (subst digits_loop.simps, subst (2) digits_loop.simps)
         (auto simp add: deref_shift split: option.splits)
  qed
qed

lemma unit_switch_shift:
  "unit_switch D (A @ X) (length A + i) n tmp
     = map_sum id (\<lambda>(j, t). (length A + j, t)) (unit_switch D X i n tmp)"
  by (simp add: unit_switch_def deref_shift deref_shift_Suc split: option.splits)

lemma component_shift:
  "component D (A @ X) (length A + l) (length A + i) tmp
     = map_sum id (\<lambda>(j, t). (length A + j, t)) (component D X l i tmp)"
proof (cases "deref X i")
  case None
  then show ?thesis
    by (simp add: component_def deref_shift)
next
  case (Some c0)
  define i1 where "i1 = (if c0 = CHR ''+'' \<or> c0 = CHR ''-'' then i + 1 else i)"
  have it1: "(if c0 = CHR ''+'' \<or> c0 = CHR ''-'' then length A + i + 1 else length A + i)
               = length A + i1"
    by (simp add: i1_def)
  show ?thesis
  proof (cases "digits_loop X l i1 0")
    case (Inl e)
    then show ?thesis
      using Some it1 digits_loop_shift [of A X l i1 0]
      by (simp add: component_def deref_shift Let_def flip: i1_def)
  next
    case (Inr r)
    then obtain i2 n0 where "digits_loop X l i1 0 = Inr (i2, n0)"
      by (cases r) simp
    then show ?thesis
      using Some it1 digits_loop_shift [of A X l i1 0]
        unit_switch_shift [of D A X i2]
      by (simp add: component_def deref_shift Let_def flip: i1_def)
  qed
qed

lemma to_duration_loop_shift:
  "to_duration_loop D (A @ X) (length A + l) (length A + i) tmp = to_duration_loop D X l i tmp"
proof (induction D X l i tmp rule: to_duration_loop.induct)
  case (1 D X l i tmp)
  show ?case
  proof (cases "i = l")
    case True
    then show ?thesis by (simp add: to_duration_loop.simps)
  next
    case False
    show ?thesis
    proof (cases "component D X l i tmp")
      case (Inl e)
      then show ?thesis
        using False component_shift [of D A X l i tmp]
        by (simp add: to_duration_loop.simps [of D "A @ X" "length A + l" "length A + i" tmp]
              to_duration_loop.simps [of D X l i tmp])
    next
      case (Inr r)
      then obtain i' tmp' where r: "component D X l i tmp = Inr (i', tmp')"
        by (cases r) simp
      from "1.IH" [OF False r refl] r show ?thesis
        using False component_shift [of D A X l i tmp]
        by (simp add: to_duration_loop.simps [of D "A @ X" "length A + l" "length A + i" tmp]
              to_duration_loop.simps [of D X l i tmp])
    qed
  qed
qed

text \<open>The accumulator is only ever added to.\<close>

lemma unit_switch_tmp:
  "unit_switch D mem it n (t + x)
     = map_sum id (\<lambda>(j, v). (j, v + x)) (unit_switch D mem it n t)"
  by (simp add: unit_switch_def add.assoc add.commute add.left_commute split: option.splits)

lemma component_tmp:
  "component D mem lim it (t + x)
     = map_sum id (\<lambda>(j, v). (j, v + x)) (component D mem lim it t)"
  by (simp add: component_def unit_switch_tmp Let_def split: option.splits sum.splits)

lemma to_duration_loop_tmp:
  "to_duration_loop D mem lim it (t + x)
     = map_sum id (\<lambda>v. v + x) (to_duration_loop D mem lim it t)"
proof (induction D mem lim it t rule: to_duration_loop.induct)
  case (1 D mem lim it t)
  show ?case
  proof (cases "it = lim")
    case True
    then show ?thesis by (simp add: to_duration_loop.simps)
  next
    case False
    show ?thesis
    proof (cases "component D mem lim it t")
      case (Inl e)
      then show ?thesis
        using False component_tmp [of D mem lim it t x]
        by (simp add: to_duration_loop.simps [of D mem lim it "t + x"]
              to_duration_loop.simps [of D mem lim it t])
    next
      case (Inr r)
      then obtain i' t' where r: "component D mem lim it t = Inr (i', t')"
        by (cases r) simp
      from "1.IH" [OF False r refl] r show ?thesis
        using False component_tmp [of D mem lim it t x]
        by (simp add: to_duration_loop.simps [of D mem lim it "t + x"]
              to_duration_loop.simps [of D mem lim it t])
    qed
  qed
qed

section \<open>The first component of a text\<close>

lemma c_str_append: "c_str (A @ B) = A @ c_str B"
  by (simp add: c_str_def)

lemma to_duration_first_component:
  assumes sg: "sg \<in> {'''', ''+'', ''-''}" and ds: "\<forall>d \<in> set ds. is_digit d"
    and look: "U = Minutes \<longrightarrow> rest = [] \<or> hd rest \<noteq> CHR ''s''"
  shows "to_duration D (sg @ ds @ suffix U @ rest)
           = map_sum id (\<lambda>v. v + duration_cast D U (raw_count sg ds)) (to_duration D rest)"
proof -
  define P where "P = sg @ ds @ suffix U"
  define str where "str = P @ rest"
  have str: "str = [] @ sg @ ds @ suffix U @ rest"
    by (simp add: str_def P_def)
  have "to_duration D str = to_duration_loop D (c_str str) (length str) (length ([] :: string)) 0"
    by (simp add: to_duration_def to_duration_range_def)
  also have "\<dots> = to_duration_loop D (c_str str) (length str) (length P)
                      (0 + duration_cast D U (raw_count sg ds))"
    using loop_component [OF sg ds str look, of D 0] by (simp add: P_def add.assoc)
  also have "\<dots> = to_duration_loop D (P @ c_str rest) (length P + length rest) (length P + 0)
                      (0 + duration_cast D U (raw_count sg ds))"
    by (simp add: str_def c_str_append)
  also have "\<dots> = to_duration_loop D (c_str rest) (length rest) 0
                      (0 + duration_cast D U (raw_count sg ds))"
    by (rule to_duration_loop_shift)
  also have "\<dots> = map_sum id (\<lambda>v. v + duration_cast D U (raw_count sg ds))
                      (to_duration_loop D (c_str rest) (length rest) 0 0)"
    by (rule to_duration_loop_tmp)
  finally show ?thesis
    by (simp add: str_def P_def to_duration_def to_duration_range_def)
qed

lemma to_duration_Nil: "to_duration D [] = Inr 0"
  by (simp add: to_duration_def to_duration_range_def to_duration_loop.simps)

lemma to_duration_component:
  assumes sg: "sg \<in> {'''', ''+'', ''-''}" and ds: "\<forall>d \<in> set ds. is_digit d"
  shows "to_duration D (sg @ ds @ suffix U) = Inr (duration_cast D U (raw_count sg ds))"
  using to_duration_first_component [OF sg ds, of U "[]" D]
  by (simp add: to_duration_Nil)

section \<open>Invalid unit suffixes\<close>

lemma unit_switch_unrecognized:
  assumes "mem = p @ c # rest"
    and "c \<notin> {CHR ''n'', CHR ''u'', CHR ''m'', CHR ''s'', CHR ''h''}"
  shows "unit_switch D mem (length p) n tmp = Inl Invalid_argument"
  using assms by (simp add: unit_switch_def deref_def)

lemma unit_switch_missing_s:
  assumes "mem = p @ c # c' # rest" and "c = CHR ''n'' \<or> c = CHR ''u''" and "c' \<noteq> CHR ''s''"
  shows "unit_switch D mem (length p) n tmp = Inl Invalid_argument"
  using assms by (auto simp add: unit_switch_def deref_def nth_append)

lemma to_duration_bad_component:
  assumes comp: "component D (c_str str) (length str) 0 0 = Inl e" and "str \<noteq> []"
  shows "to_duration D str = Inl e"
  using assms
  by (simp add: to_duration_def to_duration_range_def
        to_duration_loop.simps [of D "c_str str" "length str" 0 0])

lemma to_duration_unrecognized:
  assumes sg: "sg \<in> {'''', ''+'', ''-''}" and ds: "\<forall>d \<in> set ds. is_digit d"
    and c: "\<not> is_digit c" "c \<notin> {CHR ''n'', CHR ''u'', CHR ''m'', CHR ''s'', CHR ''h''}"
      "sg @ ds = [] \<longrightarrow> c \<noteq> CHR ''+'' \<and> c \<noteq> CHR ''-''"
  shows "to_duration D (sg @ ds @ c # rest) = Inl Invalid_argument"
proof -
  define str where "str = sg @ ds @ c # rest"
  have mem: "c_str str = [] @ sg @ ds @ c # (rest @ [CHR 0x00])"
    by (simp add: str_def c_str_def)
  have "component D (c_str str) (length str) (length ([] :: string)) 0
          = unit_switch D (c_str str) (length ([] :: string) + length sg + length ds) (raw_count sg ds) 0"
    using sg ds c(1,3) mem by (intro component_run [where c = c and rest = "rest @ [CHR 0x00]"])
      (simp_all add: str_def)
  also have "\<dots> = Inl Invalid_argument"
    using unit_switch_unrecognized [of "c_str str" "sg @ ds" c "rest @ [CHR 0x00]"] mem c(2)
    by simp
  finally show ?thesis
    using to_duration_bad_component [of D str] by (simp add: str_def)
qed

lemma to_duration_missing_s:
  assumes sg: "sg \<in> {'''', ''+'', ''-''}" and ds: "\<forall>d \<in> set ds. is_digit d"
    and c: "c = CHR ''n'' \<or> c = CHR ''u''" and rest: "rest = [] \<or> hd rest \<noteq> CHR ''s''"
  shows "to_duration D (sg @ ds @ c # rest) = Inl Invalid_argument"
proof -
  define str where "str = sg @ ds @ c # rest"
  obtain c' rest' where rest': "rest @ [CHR 0x00] = c' # rest'" "c' \<noteq> CHR ''s''"
    using rest by (cases rest) auto
  have mem: "c_str str = [] @ sg @ ds @ c # c' # rest'"
    using rest'(1) by (simp add: str_def c_str_def)
  have "\<not> is_digit c" "c \<noteq> CHR ''+'' \<and> c \<noteq> CHR ''-''"
    using c by (auto simp: is_digit_def)
  then have "component D (c_str str) (length str) (length ([] :: string)) 0
          = unit_switch D (c_str str) (length ([] :: string) + length sg + length ds) (raw_count sg ds) 0"
    using sg ds mem by (intro component_run [where c = c and rest = "c' # rest'"])
      (simp_all add: str_def)
  also have "\<dots> = Inl Invalid_argument"
    using unit_switch_missing_s [of "c_str str" "sg @ ds" c c' rest'] mem c rest'(2)
    by simp
  finally show ?thesis
    using to_duration_bad_component [of D str] by (simp add: str_def)
qed

text \<open>Input that ends where the unit suffix is expected: the suffix read finds the
  terminating null character.\<close>

lemma to_duration_no_unit:
  assumes sg: "sg \<in> {'''', ''+'', ''-''}" and ds: "\<forall>d \<in> set ds. is_digit d"
    and ne: "sg @ ds \<noteq> []"
  shows "to_duration D (sg @ ds) = Inl Invalid_argument"
proof -
  define str where "str = sg @ ds"
  have mem: "c_str str = [] @ sg @ ds @ CHR 0x00 # []"
    by (simp add: str_def c_str_def)
  have "\<not> is_digit (CHR 0x00)"
    by (simp add: is_digit_def)
  then have "component D (c_str str) (length str) (length ([] :: string)) 0
          = unit_switch D (c_str str) (length ([] :: string) + length sg + length ds) (raw_count sg ds) 0"
    using sg ds mem ne by (intro component_run [where c = "CHR 0x00" and rest = "[]"])
      (simp_all add: str_def)
  also have "\<dots> = Inl Invalid_argument"
    using unit_switch_unrecognized [of "c_str str" "sg @ ds" "CHR 0x00" "[]"] mem
    by simp
  finally show ?thesis
    using to_duration_bad_component [of D str] ne by (simp add: str_def)
qed

section \<open>Concatenation of texts\<close>

text \<open>
  A text that parses begins with a sign, digits and a suffix. So the first component of
  \<open>A @ B\<close> is that of \<open>A\<close>, unless \<open>B\<close> supplies the \<open>s\<close> behind a final \<open>m\<close> of \<open>A\<close>, and
  the parse of \<open>A @ B\<close> continues the parse of \<open>A\<close> with \<open>B\<close>.
\<close>

lemma to_duration_first_component_cases:
  assumes ok: "to_duration D A = Inr a" and ne: "A \<noteq> []"
  obtains sg ds U A' where "A = sg @ ds @ suffix U @ A'" and "sg \<in> {'''', ''+'', ''-''}"
    and "\<forall>d \<in> set ds. is_digit d" and "U = Minutes \<longrightarrow> A' = [] \<or> hd A' \<noteq> CHR ''s''"
proof -
  define sg where "sg = (if hd A = CHR ''+'' \<or> hd A = CHR ''-'' then [hd A] else [])"
  define A1 where "A1 = drop (length sg) A"
  define ds where "ds = takeWhile is_digit A1"
  define A2 where "A2 = dropWhile is_digit A1"
  have sg: "sg \<in> {'''', ''+'', ''-''}"
    by (auto simp: sg_def)
  have A: "A = sg @ ds @ A2"
    using ne by (cases A) (auto simp: sg_def A1_def ds_def A2_def)
  have ds: "\<forall>d \<in> set ds. is_digit d"
    by (auto simp: ds_def dest: set_takeWhileD)
  have A2: "A2 = [] \<or> \<not> is_digit (hd A2)"
    using hd_dropWhile [of is_digit A1] by (auto simp: A2_def)
  have nosign: "hd A \<noteq> CHR ''+'' \<and> hd A \<noteq> CHR ''-''" if "sg = []"
    using that by (auto simp: sg_def split: if_splits)
  show thesis
  proof (cases A2)
    case Nil
    then have "to_duration D A = Inl Invalid_argument"
      using to_duration_no_unit [OF sg ds, of D] A ne by simp
    with ok show thesis by simp
  next
    case (Cons c r)
    have c: "\<not> is_digit c"
      using A2 Cons by simp
    have c': "sg @ ds = [] \<longrightarrow> c \<noteq> CHR ''+'' \<and> c \<noteq> CHR ''-''"
      using nosign A Cons by auto
    have bad: False if "c \<notin> {CHR ''n'', CHR ''u'', CHR ''m'', CHR ''s'', CHR ''h''}"
      using to_duration_unrecognized [OF sg ds c that c', of D r] ok A Cons by simp
    have bad2: False if "c = CHR ''n'' \<or> c = CHR ''u''" "r = [] \<or> hd r \<noteq> CHR ''s''"
      using to_duration_missing_s [OF sg ds that, of D] ok A Cons by simp
    consider (n) "c = CHR ''n''" | (u) "c = CHR ''u''" | (m) "c = CHR ''m''"
      | (s) "c = CHR ''s''" | (h) "c = CHR ''h''"
      using bad by blast
    then show thesis
    proof cases
      case n
      with bad2 obtain r' where "r = CHR ''s'' # r'"
        by (cases r) auto
      with n A Cons have "A = sg @ ds @ suffix Nanoseconds @ r'" by simp
      then show thesis using sg ds by (rule that) simp
    next
      case u
      with bad2 obtain r' where "r = CHR ''s'' # r'"
        by (cases r) auto
      with u A Cons have "A = sg @ ds @ suffix Microseconds @ r'" by simp
      then show thesis using sg ds by (rule that) simp
    next
      case m
      show thesis
      proof (cases "r = [] \<or> hd r \<noteq> CHR ''s''")
        case True
        from m A Cons have "A = sg @ ds @ suffix Minutes @ r" by simp
        then show thesis using sg ds by (rule that) (use True in simp)
      next
        case False
        then obtain r' where "r = CHR ''s'' # r'"
          by (cases r) auto
        with m A Cons have "A = sg @ ds @ suffix Milliseconds @ r'" by simp
        then show thesis using sg ds by (rule that) simp
      qed
    next
      case s
      with A Cons have "A = sg @ ds @ suffix Seconds @ r" by simp
      then show thesis using sg ds by (rule that) simp
    next
      case h
      with A Cons have "A = sg @ ds @ suffix Hours @ r" by simp
      then show thesis using sg ds by (rule that) simp
    qed
  qed
qed

lemma to_duration_append_result:
  assumes "to_duration D A = Inr a" and "B = [] \<or> hd B \<noteq> CHR ''s''"
  shows "to_duration D (A @ B) = map_sum id (\<lambda>v. a + v) (to_duration D B)"
  using assms(1)
proof (induction "length A" arbitrary: A a rule: less_induct)
  case less
  show ?case
  proof (cases "A = []")
    case True
    with less.prems show ?thesis
      by (cases "to_duration D B") (simp_all add: to_duration_Nil)
  next
    case False
    from less.prems False obtain sg ds U A'
      where A: "A = sg @ ds @ suffix U @ A'" and sg: "sg \<in> {'''', ''+'', ''-''}"
        and ds: "\<forall>d \<in> set ds. is_digit d"
        and look: "U = Minutes \<longrightarrow> A' = [] \<or> hd A' \<noteq> CHR ''s''"
      by (rule to_duration_first_component_cases)
    define k where "k = duration_cast D U (raw_count sg ds)"
    have "to_duration D A = map_sum id (\<lambda>v. v + k) (to_duration D A')"
      unfolding A k_def using sg ds look by (rule to_duration_first_component)
    with less.prems obtain a' where a': "to_duration D A' = Inr a'" "a = a' + k"
      by (cases "to_duration D A'") auto
    have "length A' < length A"
      unfolding A by (cases U) simp_all
    then have IH: "to_duration D (A' @ B) = map_sum id (\<lambda>v. a' + v) (to_duration D B)"
      using a'(1) by (rule less.hyps)
    have look': "U = Minutes \<longrightarrow> A' @ B = [] \<or> hd (A' @ B) \<noteq> CHR ''s''"
      using look assms(2) by (cases A') auto
    have "to_duration D (sg @ ds @ suffix U @ (A' @ B))
            = map_sum id (\<lambda>v. v + k) (to_duration D (A' @ B))"
      unfolding k_def using sg ds look' by (rule to_duration_first_component)
    then show ?thesis
      using IH a'(2)
      by (cases "to_duration D B") (simp_all add: A add.commute add.left_commute)
  qed
qed

lemma to_duration_append:
  assumes "to_duration D A = Inr a" and "to_duration D B = Inr b"
    and "B = [] \<or> hd B \<noteq> CHR ''s''"
  shows "to_duration D (A @ B) = Inr (a + b)"
  using to_duration_append_result [OF assms(1,3)] assms(2) by simp

lemma map_sum_add_add:
  "map_sum id (\<lambda>v. a + v) (map_sum id (\<lambda>v. v + k) R)
     = map_sum id (\<lambda>v. a + k + v) (R :: error + rep)"
  by (cases R) (simp_all add: add.assoc add.commute)

lemma component_head_digits:
  assumes "sg \<in> {'''', ''+'', ''-''}" and "ds \<noteq> []" and "\<forall>d \<in> set ds. is_digit d"
  shows "hd (sg @ ds @ rest) \<noteq> CHR ''s''"
proof (cases "sg = []")
  case True
  with assms(2,3) show ?thesis
    by (cases ds) (auto simp: is_digit_def)
next
  case False
  with assms(1) show ?thesis by auto
qed

lemma component_head:
  assumes "sg \<in> {'''', ''+'', ''-''}" and "\<forall>d \<in> set ds. is_digit d" and "c \<noteq> CHR ''s''"
  shows "hd (sg @ ds @ c # rest) \<noteq> CHR ''s''"
proof (cases "sg = []")
  case True
  with assms(2,3) show ?thesis
    by (cases ds) (auto simp: is_digit_def)
next
  case False
  with assms(1) show ?thesis by auto
qed

section \<open>Arithmetic of tick counts\<close>

lemma period_pos: "0 < period U"
  by (cases U) simp_all

lemma period_less: "period U < 2 ^ 63"
  by (cases U) simp_all

lemma period_dvd: "period A \<le> period B \<Longrightarrow> period A dvd period B"
  by (cases A; cases B) simp_all

lemma period_div_pos: "period A \<le> period B \<Longrightarrow> 0 < period B div period A"
  by (simp add: div_greater_zero_iff period_pos)

lemma period_div_less: "period B div period A < 2 ^ 63"
  using period_less [of B] div_le_dividend [of "period B" "period A"] by linarith

lemma sint_rep_of_int:
  "- (2 ^ 63) \<le> k \<Longrightarrow> k < 2 ^ 63 \<Longrightarrow> sint (word_of_int k :: rep) = k"
  by (simp add: sint_sbintrunc' signed_take_bit_int_eq_self)

lemma sint_rep_of_nat: "n < 2 ^ 63 \<Longrightarrow> sint (of_nat n :: rep) = int n"
  using sint_rep_of_int [of "int n"] by simp

lemma sint_rep_minus_of_nat: "n < 2 ^ 63 \<Longrightarrow> sint (- of_nat n :: rep) = - int n"
  using sint_rep_of_int [of "- int n"] by simp

lemma rep_mult_of_nat: "(n :: rep) * of_nat k = word_of_int (sint n * int k)"
  by simp

lemma sdiv_pos_divisor:
  "0 < l \<Longrightarrow> (x :: int) sdiv l = (if 0 \<le> x then x div l else - ((- x) div l))"
  by (simp add: signed_divide_int_def sgn_if)

lemma sdiv_mult_cancel: "0 < k \<Longrightarrow> (x * k) sdiv k = (x :: int)"
  by (simp add: sdiv_pos_divisor zero_le_mult_iff flip: mult_minus_left)

lemma sdiv_mult_mult: "0 < a \<Longrightarrow> 0 < c \<Longrightarrow> (x * a) sdiv (a * c) = (x :: int) sdiv c"
proof -
  assume a: "0 < a" and c: "0 < c"
  have "(x * a) div (a * c) = x div c" for x :: int
    using a by (simp add: mult.commute [of x a])
  from this [of x] this [of "- x"] a c show ?thesis
    by (simp add: sdiv_pos_divisor zero_le_mult_iff)
qed

lemma sdiv_sdiv: "0 < a \<Longrightarrow> 0 < k \<Longrightarrow> ((x :: int) sdiv a) sdiv k = x sdiv (a * k)"
proof -
  assume a: "0 < a" and k: "0 < k"
  have nn: "(y div a) div k = y div (a * k)" for y :: int
    using k by (simp add: zdiv_zmult2_eq)
  show ?thesis
  proof (cases "0 \<le> x")
    case True
    then have "0 \<le> x div a"
      using a by (simp add: pos_imp_zdiv_nonneg_iff)
    with True a k nn [of x] show ?thesis
      by (simp add: sdiv_pos_divisor)
  next
    case False
    then have q: "0 \<le> (- x) div a"
      using a by (simp add: pos_imp_zdiv_nonneg_iff)
    show ?thesis
    proof (cases "(- x) div a = 0")
      case True
      with False a k nn [of "- x"] show ?thesis
        by (simp add: sdiv_pos_divisor)
    next
      case nz: False
      with q have "\<not> 0 \<le> - ((- x) div a)" by simp
      with False a k nn [of "- x"] show ?thesis
        by (simp add: sdiv_pos_divisor)
    qed
  qed
qed

lemma sdiv_bounds:
  assumes "0 < l" shows "- \<bar>x\<bar> \<le> (x :: int) sdiv l \<and> x sdiv l \<le> \<bar>x\<bar>"
    and "x < 0 \<Longrightarrow> x sdiv l \<le> 0"
proof -
  have d: "0 \<le> y div l \<and> y div l \<le> y" if "0 \<le> y" for y :: int
    using that assms int_div_le_self [of y l]
    by (cases "y = 0") (simp_all add: pos_imp_zdiv_nonneg_iff)
  show "- \<bar>x\<bar> \<le> x sdiv l \<and> x sdiv l \<le> \<bar>x\<bar>"
    using d [of x] d [of "- x"] assms by (cases "0 \<le> x") (simp_all add: sdiv_pos_divisor)
  show "x < 0 \<Longrightarrow> x sdiv l \<le> 0"
    using d [of "- x"] assms by (simp add: sdiv_pos_divisor)
qed

lemma sint_rep_div:
  assumes "0 < k" and "k < 2 ^ 63"
  shows "sint (rep_div n (of_nat k)) = sint n sdiv int k"
proof -
  have lo: "- (2 ^ 63) \<le> sint n" and hi: "sint n < 2 ^ 63"
    using sint_ge [of n] sint_lt [of n] by simp_all
  have k: "sint (of_nat k :: rep) = int k"
    using assms by (simp add: sint_rep_of_nat)
  have "- (2 ^ 63) \<le> sint n sdiv int k \<and> sint n sdiv int k < 2 ^ 63"
    using sdiv_bounds [of "int k" "sint n"] assms lo hi by (cases "sint n < 0") simp_all
  then show ?thesis
    by (simp add: rep_div_def k sint_rep_of_int)
qed

section \<open>Conversion between resolutions\<close>

lemma duration_cast_same: "duration_cast U U n = n"
  by (simp add: duration_cast_def period_pos)

lemma duration_cast_zero: "duration_cast D U 0 = 0"
  by (simp add: duration_cast_def rep_div_def)

lemma duration_cast_coarser:
  assumes le: "period R1 \<le> period R2"
    and lo: "- (2 ^ 63) \<le> sint n * int (period U div period R1)"
    and hi: "sint n * int (period U div period R1) < 2 ^ 63"
  shows "duration_cast R2 U n
           = rep_div (duration_cast R1 U n) (of_nat (period R2 div period R1))"
proof -
  define x where "x = sint n"
  define k where "k = period R2 div period R1"
  have k: "0 < k" "k < 2 ^ 63" "period R2 = period R1 * k"
    using le period_dvd [OF le] period_div_pos [OF le] period_div_less [of R2 R1]
    by (simp_all add: k_def)
  have sk: "sint (of_nat k :: rep) = int k"
    using k(2) by (rule sint_rep_of_nat)
  consider (fine) "period R2 \<le> period U"
    | (between) "period R1 \<le> period U" "period U < period R2"
    | (coarse) "period U < period R1"
    by linarith
  then show ?thesis
  proof cases
    case fine
    define b where "b = period U div period R2"
    have u: "period U = period R2 * b"
      using period_dvd [OF fine] by (simp add: b_def)
    have a: "period U div period R1 = b * k"
      using k(3) u period_pos [of R1] by simp
    have r1: "sint (n * of_nat (b * k)) = x * int (b * k)"
      using lo hi unfolding a rep_mult_of_nat x_def by (intro sint_rep_of_int)
    have "rep_div (n * of_nat (b * k)) (of_nat k) = word_of_int ((x * int b * int k) sdiv int k)"
      unfolding rep_div_def r1 sk by (simp add: mult.assoc)
    also have "\<dots> = word_of_int (x * int b)"
      using k(1) by (simp add: sdiv_mult_cancel)
    also have "\<dots> = n * of_nat b"
      by (simp add: x_def)
    finally show ?thesis
      using fine le a by (simp add: duration_cast_def b_def k_def)
  next
    case between
    define a where "a = period U div period R1"
    define c where "c = period R2 div period U"
    have u: "period U = period R1 * a" and r2: "period R2 = period U * c"
      using period_dvd [OF between(1)] between(2) period_dvd [of U R2]
      by (simp_all add: a_def c_def)
    have ac: "0 < a" "0 < c" "c < 2 ^ 63"
      using between period_div_pos [of R1 U] period_div_pos [of U R2] period_div_less [of R2 U]
      by (simp_all add: a_def c_def)
    have kac: "k = a * c"
      using k(3) u r2 period_pos [of R1] by simp
    have r1: "sint (n * of_nat a) = x * int a"
      using lo hi unfolding a_def rep_mult_of_nat x_def by (intro sint_rep_of_int)
    have "rep_div (n * of_nat a) (of_nat k) = word_of_int ((x * int a) sdiv int k)"
      unfolding rep_div_def r1 sk by (rule refl)
    also have "\<dots> = word_of_int ((x * int a) sdiv (int a * int c))"
      by (simp add: kac)
    also have "\<dots> = word_of_int (x sdiv int c)"
      using ac by (simp add: sdiv_mult_mult)
    also have "\<dots> = rep_div n (of_nat c)"
      unfolding rep_div_def sint_rep_of_nat [OF ac(3)] x_def by (rule refl)
    finally show ?thesis
      using between by (simp add: duration_cast_def a_def c_def k_def)
  next
    case coarse
    define a where "a = period R1 div period U"
    have r1: "period R1 = period U * a"
      using period_dvd [of U R1] coarse by (simp add: a_def)
    have a: "0 < a" "a < 2 ^ 63"
      using coarse period_div_pos [of U R1] period_div_less [of R1 U]
      by (simp_all add: a_def)
    have c: "period R2 div period U = a * k" "a * k < 2 ^ 63"
      using k(3) r1 period_pos [of U] period_div_less [of R2 U] by simp_all
    have "rep_div (rep_div n (of_nat a)) (of_nat k) = word_of_int ((x sdiv int a) sdiv int k)"
      unfolding rep_div_def [of "rep_div n (of_nat a)"] sint_rep_div [OF a] sk x_def by (rule refl)
    also have "\<dots> = word_of_int (x sdiv (int a * int k))"
      using a(1) k(1) by (simp add: sdiv_sdiv)
    also have "\<dots> = rep_div n (of_nat (a * k))"
      unfolding rep_div_def sint_rep_of_nat [OF c(2)] x_def by simp
    finally show ?thesis
      using coarse le c(1) by (simp add: duration_cast_def a_def k_def)
  qed
qed

lemma to_duration_no_digits:
  assumes "sg \<in> {'''', ''+'', ''-''}"
  shows "to_duration D (sg @ suffix U) = Inr 0"
  using to_duration_component [OF assms, of "[]" D U]
  by (simp add: raw_count_def decimal_def duration_cast_zero)

lemma foldl_magnitude:
  "foldl (\<lambda>m c. m * 10 + of_nat (digit_value c)) (of_nat v) ds
     = (of_nat (foldl (\<lambda>v c. v * 10 + digit_value c) v ds) :: rep)"
proof (induction ds arbitrary: v)
  case Nil
  show ?case by simp
next
  case (Cons d ds)
  have "(of_nat v * 10 + of_nat (digit_value d) :: rep) = of_nat (v * 10 + digit_value d)"
    by simp
  then show ?case
    using Cons.IH [of "v * 10 + digit_value d"] by simp
qed

lemma sign_magnitude_raw_count: "sign_magnitude sg ds = raw_count sg ds"
  using foldl_magnitude [of 0 ds] by (simp add: sign_magnitude_def raw_count_def decimal_def)

lemma raw_count_signed_decimal: "raw_count sg ds = word_of_int (signed_decimal sg ds)"
  by (simp add: raw_count_def signed_decimal_def)

lemma sint_raw_count_signed:
  assumes "- (2 ^ 63) \<le> signed_decimal sg ds" and "signed_decimal sg ds < 2 ^ 63"
  shows "sint (raw_count sg ds) = signed_decimal sg ds"
  unfolding raw_count_signed_decimal using assms by (rule sint_rep_of_int)

section \<open>Reads on a string stay within bounds\<close>

text \<open>On a string the cursor never passes \<open>last\<close>: every read is a read of a character of
  the string or of its terminator.\<close>

lemma deref_c_str:
  "it \<le> length str \<Longrightarrow>
   deref (c_str str) it = Some (if it < length str then str ! it else CHR 0x00)"
  by (simp add: deref_def c_str_def nth_append)

lemma digits_loop_in_bounds:
  assumes "it \<le> length str"
  shows "\<exists>it2 n2. digits_loop (c_str str) (length str) it n = Inr (it2, n2)
           \<and> it \<le> it2 \<and> it2 \<le> length str"
  using assms
proof (induction "length str - it" arbitrary: it n)
  case 0
  then show ?case
    by (subst digits_loop.simps) simp
next
  case (Suc k)
  then have lt: "it < length str" by simp
  show ?case
  proof (cases "CHR ''0'' \<le> str ! it \<and> str ! it \<le> CHR ''9''")
    case True
    from Suc.hyps(2) lt have "k = length str - (it + 1)" "it + 1 \<le> length str"
      by simp_all
    from Suc.hyps(1) [OF this, of "n * 10 - of_nat (of_char (str ! it) - of_char CHR ''0'')"]
    obtain it2 n2 where
      "digits_loop (c_str str) (length str) (it + 1)
         (n * 10 - of_nat (of_char (str ! it) - of_char CHR ''0'')) = Inr (it2, n2)"
      "it + 1 \<le> it2" "it2 \<le> length str"
      by blast
    with True lt show ?thesis
      by (subst digits_loop.simps) (simp add: deref_c_str)
  next
    case False
    with lt show ?thesis
      by (subst digits_loop.simps) (auto simp add: deref_c_str)
  qed
qed

lemma unit_switch_in_bounds:
  assumes "it \<le> length str"
  shows "unit_switch D (c_str str) it n tmp \<noteq> Inl Out_of_bounds"
    and "unit_switch D (c_str str) it n tmp = Inr (it', tmp') \<Longrightarrow> it < it' \<and> it' \<le> length str"
proof -
  have 0: "deref (c_str str) it = Some (if it < length str then str ! it else CHR 0x00)"
    using assms by (rule deref_c_str)
  have 1: "deref (c_str str) (it + 1)
             = Some (if it + 1 < length str then str ! (it + 1) else CHR 0x00)"
    if "it < length str"
    using that by (intro deref_c_str) simp
  show "unit_switch D (c_str str) it n tmp \<noteq> Inl Out_of_bounds"
    using 0 1 by (cases "it < length str") (simp_all add: unit_switch_def)
  show "it < it' \<and> it' \<le> length str" if "unit_switch D (c_str str) it n tmp = Inr (it', tmp')"
    using that 0 1 by (cases "it < length str") (auto simp add: unit_switch_def split: if_splits)
qed

lemma component_in_bounds:
  assumes "it < length str"
  shows "component D (c_str str) (length str) it tmp \<noteq> Inl Out_of_bounds"
    and "component D (c_str str) (length str) it tmp = Inr (it', tmp') \<Longrightarrow>
           it < it' \<and> it' \<le> length str"
proof -
  define c0 where "c0 = str ! it"
  define it1 where "it1 = (if c0 = CHR ''+'' \<or> c0 = CHR ''-'' then it + 1 else it)"
  have 0: "deref (c_str str) it = Some c0"
    using assms by (simp add: deref_c_str c0_def)
  have "it1 \<le> length str"
    using assms by (simp add: it1_def)
  from digits_loop_in_bounds [OF this, of 0] obtain it2 n0 where
    d: "digits_loop (c_str str) (length str) it1 0 = Inr (it2, n0)" "it1 \<le> it2" "it2 \<le> length str"
    by blast
  have comp: "component D (c_str str) (length str) it tmp
          = unit_switch D (c_str str) it2 (if c0 = CHR ''-'' then n0 else - n0) tmp"
    using 0 d(1) by (simp add: component_def Let_def flip: it1_def)
  have "it \<le> it2"
    using d(2) by (simp add: it1_def split: if_splits)
  then show "component D (c_str str) (length str) it tmp \<noteq> Inl Out_of_bounds"
    and "component D (c_str str) (length str) it tmp = Inr (it', tmp') \<Longrightarrow>
           it < it' \<and> it' \<le> length str"
    using unit_switch_in_bounds(1) [OF d(3), of D "if c0 = CHR ''-'' then n0 else - n0" tmp]
      unit_switch_in_bounds(2) [OF d(3), of D "if c0 = CHR ''-'' then n0 else - n0" tmp it' tmp']
    unfolding comp by simp_all
qed

lemma to_duration_loop_in_bounds:
  "it \<le> length str \<Longrightarrow> to_duration_loop D (c_str str) (length str) it tmp \<noteq> Inl Out_of_bounds"
proof (induction "length str - it" arbitrary: it tmp rule: less_induct)
  case less
  show ?case
  proof (cases "it = length str")
    case True
    then show ?thesis by (simp add: to_duration_loop.simps)
  next
    case False
    with less.prems have lt: "it < length str" by simp
    show ?thesis
    proof (cases "component D (c_str str) (length str) it tmp")
      case (Inl e)
      with component_in_bounds(1) [OF lt, of D tmp] False show ?thesis
        by (simp add: to_duration_loop.simps [of D "c_str str" "length str" it tmp])
    next
      case (Inr r)
      obtain it' tmp' where r: "r = (it', tmp')" by (cases r)
      with Inr component_in_bounds(2) [OF lt, of D tmp it' tmp']
      have adv: "it < it'" "it' \<le> length str" by simp_all
      then have "length str - it' < length str - it" by simp
      from less.hyps [OF this adv(2), of tmp'] Inr r False show ?thesis
        by (simp add: to_duration_loop.simps [of D "c_str str" "length str" it tmp])
    qed
  qed
qed

lemma to_duration_in_bounds: "to_duration D str \<noteq> Inl Out_of_bounds"
  using to_duration_loop_in_bounds [of 0 str D 0]
  by (simp add: to_duration_def to_duration_range_def)

lemma T_digits_loop_bound:
  assumes "it \<le> length str"
    and "digits_loop (c_str str) (length str) it n = Inr (it2, n2)"
  shows "T_digits_loop (c_str str) (length str) it + it
           \<le> it2 + (if it2 < length str then 1 else 0)"
  using assms
proof (induction "length str - it" arbitrary: it n)
  case 0
  then show ?case
    by (subst T_digits_loop.simps, subst (asm) digits_loop.simps) simp
next
  case (Suc k)
  then have lt: "it < length str" by simp
  show ?case
  proof (cases "CHR ''0'' \<le> str ! it \<and> str ! it \<le> CHR ''9''")
    case True
    from Suc.hyps(2) lt have k: "k = length str - (it + 1)" "it + 1 \<le> length str"
      by simp_all
    have "digits_loop (c_str str) (length str) (it + 1)
            (n * 10 - of_nat (of_char (str ! it) - of_char CHR ''0'')) = Inr (it2, n2)"
      using Suc.prems(2) True lt
      by (subst (asm) digits_loop.simps) (simp add: deref_c_str)
    from Suc.hyps(1) [OF k this]
    have "T_digits_loop (c_str str) (length str) (it + 1) + (it + 1)
            \<le> it2 + (if it2 < length str then 1 else 0)" .
    with True lt show ?thesis
      by (subst T_digits_loop.simps) (simp add: deref_c_str)
  next
    case False
    with lt Suc.prems(2) have "it2 = it"
      by (subst (asm) digits_loop.simps) (auto simp add: deref_c_str)
    with False lt show ?thesis
      by (subst T_digits_loop.simps) (auto simp add: deref_c_str)
  qed
qed

lemma T_component_bound:
  assumes lt: "it < length str"
  shows "component D (c_str str) (length str) it tmp = Inr (it', tmp') \<Longrightarrow>
           T_component (c_str str) (length str) it \<le> 2 * (it' - it)"
    and "T_component (c_str str) (length str) it \<le> 2 * (length str - it)"
proof -
  define c0 where "c0 = str ! it"
  define it1 where "it1 = (if c0 = CHR ''+'' \<or> c0 = CHR ''-'' then it + 1 else it)"
  have 0: "deref (c_str str) it = Some c0"
    using lt by (simp add: deref_c_str c0_def)
  have it1: "it \<le> it1" "it1 \<le> length str"
    using lt by (simp_all add: it1_def)
  from digits_loop_in_bounds [OF it1(2), of 0] obtain it2 n0 where
    d: "digits_loop (c_str str) (length str) it1 0 = Inr (it2, n0)" "it1 \<le> it2" "it2 \<le> length str"
    by blast
  have T: "T_component (c_str str) (length str) it
             = 1 + T_digits_loop (c_str str) (length str) it1"
    using 0 by (simp add: T_component_def it1_def)
  have b: "T_digits_loop (c_str str) (length str) it1 + it1
             \<le> it2 + (if it2 < length str then 1 else 0)"
    using it1(2) d(1) by (rule T_digits_loop_bound)
  show "T_component (c_str str) (length str) it \<le> 2 * (length str - it)"
    using T b it1 d(2,3) lt by (auto split: if_splits)
  assume "component D (c_str str) (length str) it tmp = Inr (it', tmp')"
  then have "unit_switch D (c_str str) it2 (if c0 = CHR ''-'' then n0 else - n0) tmp = Inr (it', tmp')"
    using 0 d(1) by (simp add: component_def Let_def flip: it1_def)
  from unit_switch_in_bounds(2) [OF d(3) this] have "it2 < it'" by simp
  then show "T_component (c_str str) (length str) it \<le> 2 * (it' - it)"
    using T b it1 d(2,3) by (auto split: if_splits)
qed

lemma T_to_duration_loop_bound:
  "it \<le> length str \<Longrightarrow>
   T_to_duration_loop D (c_str str) (length str) it tmp \<le> 2 * (length str - it)"
proof (induction "length str - it" arbitrary: it tmp rule: less_induct)
  case less
  show ?case
  proof (cases "it = length str")
    case True
    then show ?thesis by (simp add: T_to_duration_loop.simps)
  next
    case False
    with less.prems have lt: "it < length str" by simp
    show ?thesis
    proof (cases "component D (c_str str) (length str) it tmp")
      case (Inl e)
      with T_component_bound(2) [OF lt] False show ?thesis
        by (simp add: T_to_duration_loop.simps [of D "c_str str" "length str" it tmp])
    next
      case (Inr r)
      obtain it' tmp' where r: "r = (it', tmp')" by (cases r)
      with Inr component_in_bounds(2) [OF lt, of D tmp it' tmp']
      have adv: "it < it'" "it' \<le> length str" by simp_all
      then have "length str - it' < length str - it" by simp
      from less.hyps [OF this adv(2), of tmp']
      have "T_to_duration_loop D (c_str str) (length str) it' tmp' \<le> 2 * (length str - it')" .
      moreover have "T_component (c_str str) (length str) it \<le> 2 * (it' - it)"
        using Inr r by (intro T_component_bound(1) [OF lt]) simp
      ultimately show ?thesis
        using Inr r False adv
        by (simp add: T_to_duration_loop.simps [of D "c_str str" "length str" it tmp])
    qed
  qed
qed

section \<open>Ranges without a terminator\<close>

text \<open>
  The scanner on a range whose buffer ends at \<open>last\<close>, with no terminator behind it: the
  digit loop never reads \<open>last\<close>, so it runs as on the terminated buffer; the reads of the
  unit suffix are not guarded.
\<close>

lemma digits_loop_restrict:
  "it \<le> lim \<Longrightarrow> lim \<le> length X \<Longrightarrow>
   digits_loop (X @ Y) lim it n = digits_loop X lim it n"
proof (induction "lim - it" arbitrary: it n)
  case 0
  then have "it = lim" by simp
  then show ?case
    by (simp add: digits_loop.simps [of _ lim lim])
next
  case (Suc k)
  then have lt: "it < lim" "it < length X" by simp_all
  then have d: "deref (X @ Y) it = Some (X ! it)" "deref X it = Some (X ! it)"
    by (simp_all add: deref_def nth_append)
  from Suc.hyps(2) lt have "k = lim - (it + 1)" "it + 1 \<le> lim"
    by simp_all
  from Suc.hyps(1) [OF this Suc.prems(2)] show ?case
    by (simp add: digits_loop.simps [of _ lim it] d)
qed

lemma component_reads_last:
  assumes sg: "sg \<in> {'''', ''+'', ''-''}" and ds: "\<forall>d \<in> set ds. is_digit d"
    and ne: "sg @ ds \<noteq> []" and mem: "mem = pre @ sg @ ds"
  shows "component D mem (length mem) (length pre) tmp = Inl Out_of_bounds"
proof -
  define it1 where "it1 = length pre + length sg"
  have first: "deref mem (length pre) = Some (hd (sg @ ds))"
    using ne mem by (cases "sg @ ds") (simp_all add: deref_def nth_append)
  have sign: "(if hd (sg @ ds) = CHR ''+'' \<or> hd (sg @ ds) = CHR ''-''
               then length pre + 1 else length pre) = it1"
  proof (cases "sg = []")
    case True
    with ne ds have "is_digit (hd (sg @ ds))" by (cases ds) simp_all
    with True show ?thesis
      using is_digit_not_sign by (simp add: it1_def)
  next
    case False
    with sg show ?thesis by (auto simp add: it1_def)
  qed
  have "digits_loop (mem @ [CHR 0x00]) (length mem) (length (pre @ sg)) 0
          = Inr (length (pre @ sg) + length ds, - of_nat (decimal ds))"
    using ds mem by (intro digits_loop_decimal [where c = "CHR 0x00" and rest = "[]"])
      (simp_all add: is_digit_def)
  then have "digits_loop mem (length mem) it1 0 = Inr (length mem, - of_nat (decimal ds))"
    using digits_loop_restrict [of it1 "length mem" mem "[CHR 0x00]" 0] mem
    by (simp add: it1_def add.assoc)
  then show ?thesis
    using first sign by (simp add: component_def unit_switch_def deref_def Let_def)
qed

lemma component_lookahead_reads_last:
  assumes sg: "sg \<in> {'''', ''+'', ''-''}" and ds: "\<forall>d \<in> set ds. is_digit d"
    and c: "c \<in> {CHR ''n'', CHR ''u'', CHR ''m''}" and mem: "mem = pre @ sg @ ds @ [c]"
  shows "component D mem (length mem) (length pre) tmp = Inl Out_of_bounds"
proof -
  have "\<not> is_digit c" "c \<noteq> CHR ''+'' \<and> c \<noteq> CHR ''-''"
    using c by (auto simp: is_digit_def)
  then have "component D mem (length mem) (length pre) tmp
        = unit_switch D mem (length pre + length sg + length ds) (raw_count sg ds) tmp"
    using sg ds mem by (intro component_run [where c = c and rest = "[]"]) simp_all
  also have "\<dots> = Inl Out_of_bounds"
    using c mem by (auto simp add: unit_switch_def deref_def nth_append)
  finally show ?thesis .
qed

lemma component_lookahead_past_last:
  assumes sg: "sg \<in> {'''', ''+'', ''-''}" and ds: "\<forall>d \<in> set ds. is_digit d"
  shows "component D (pre @ sg @ ds @ ''m'' @ ''s'') (length (pre @ sg @ ds @ ''m''))
           (length pre) tmp
         = Inr (length (pre @ sg @ ds @ ''m'') + 1,
                tmp + duration_cast D Milliseconds (raw_count sg ds))"
proof -
  have "component D (pre @ sg @ ds @ ''m'' @ ''s'') (length (pre @ sg @ ds @ ''m''))
           (length pre) tmp
        = unit_switch D (pre @ sg @ ds @ ''m'' @ ''s'') (length pre + length sg + length ds)
            (raw_count sg ds) tmp"
    using sg ds by (intro component_run [where c = "CHR ''m''" and rest = "''s''"])
      (simp_all add: is_digit_def)
  also have "\<dots> = Inr (length (pre @ sg @ ds @ ''m'') + 1,
                tmp + duration_cast D Milliseconds (raw_count sg ds))"
    using unit_switch_suffix [of "pre @ sg @ ds @ ''m'' @ ''s''" "pre @ sg @ ds"
        Milliseconds "[]"]
    by (simp add: unit_switch_def deref_def nth_append)
  finally show ?thesis .
qed

section \<open>A single component\<close>

text \<open>
  Claim C1, as amended. For a single component \<open>N unit\<close> with a non-negative integer
  literal \<open>N\<close>, parsed at a target resolution equal to or finer than the unit, the result
  is exactly \<open>N\<close> times the ratio of the unit to the target resolution, provided this
  product is at most \<open>2^63 - 1\<close>, the largest tick count. The ratios are the fixed ones:
  1 hour = 60 minutes = 3600 seconds = 3,600,000 milliseconds = 3.6e9 microseconds =
  3.6e12 nanoseconds.
\<close>

theorem to_duration_single_component:
  assumes "ds \<noteq> []" and "\<forall>d \<in> set ds. is_digit d"
    and "period D \<le> period U"
    and "decimal ds * (period U div period D) < 2 ^ 63"
  shows "to_duration D (ds @ suffix U) = Inr (of_nat (decimal ds * (period U div period D)))
       \<and> sint (of_nat (decimal ds * (period U div period D)) :: rep)
           = int (decimal ds * (period U div period D))
       \<and> period Hours div period Minutes = 60
       \<and> period Hours div period Seconds = 3600
       \<and> period Hours div period Milliseconds = 3600000
       \<and> period Hours div period Microseconds = 3600000000
       \<and> period Hours div period Nanoseconds = 3600000000000"
proof -
  have "to_duration D ([] @ ds @ suffix U) = Inr (duration_cast D U (raw_count [] ds))"
    using assms(2) by (intro to_duration_component) simp_all
  then have "to_duration D (ds @ suffix U) = Inr (of_nat (decimal ds * (period U div period D)))"
    using assms(3) by (simp add: duration_cast_def raw_count_def)
  moreover have "sint (of_nat (decimal ds * (period U div period D)) :: rep)
           = int (decimal ds * (period U div period D))"
    using assms(4) by (rule sint_rep_of_nat)
  ultimately show ?thesis
    by simp
qed

theorem to_duration_single_component_witness:
  "period Milliseconds \<le> period Seconds
   \<and> decimal ''1'' * (period Seconds div period Milliseconds) = 1000
   \<and> to_duration Milliseconds ''1s'' = Inr 1000
   \<and> sint (1000 :: rep) = 1000"
  using to_duration_single_component [of "''1''" Milliseconds Seconds]
  by (simp add: is_digit_def decimal_def digit_value_def)

text \<open>
  The literal \<open>9223372036854775808\<close> is \<open>2^63\<close>: the count returned for it at the
  resolution of its own unit is \<open>- 2^63\<close>, not \<open>N\<close> times the ratio 1.
\<close>

theorem to_duration_single_component_overflow:
  "to_duration Seconds ''9223372036854775808s'' = Inr (- 9223372036854775808)
   \<and> sint (- 9223372036854775808 :: rep) = - 9223372036854775808
   \<and> int (decimal ''9223372036854775808'' * (period Seconds div period Seconds))
       = 9223372036854775808"
  by (simp add: to_duration_eval decimal_def digit_value_def)

section \<open>Components without digits\<close>

text \<open>
  Claim C2 says that a component without a digit after its optional sign is rejected.
  The documented format \<open>([+-]?\d+(ns|us|ms|s|m|h))*\<close> says so too, but the scanner does
  not check that the digit loop has read a digit: a sign and a unit suffix without digits
  are accepted as a zero count. Only a trailing sign at the end of the input fails, where
  the suffix is missing.
\<close>

theorem to_duration_accepts_no_digits:
  "to_duration D ''s'' = Inr 0 \<and> to_duration D ''ns'' = Inr 0 \<and> to_duration D ''h'' = Inr 0
   \<and> to_duration D ''+m'' = Inr 0 \<and> to_duration D ''1s-h'' = Inr (duration_cast D Seconds 1)
   \<and> to_duration D ''+'' = Inl Invalid_argument
   \<and> to_duration D ''1s-'' = Inl Invalid_argument"
proof -
  have "to_duration D ('''' @ suffix Seconds) = Inr 0" "to_duration D ('''' @ suffix Nanoseconds) = Inr 0"
    "to_duration D ('''' @ suffix Hours) = Inr 0" "to_duration D (''+'' @ suffix Minutes) = Inr 0"
    "to_duration D (''-'' @ suffix Hours) = Inr 0"
    by (simp_all only: to_duration_no_digits insert_iff simp_thms)
  moreover have "to_duration D ('''' @ ''1'' @ suffix Seconds @ ''-h'')
      = map_sum id (\<lambda>v. v + duration_cast D Seconds (raw_count '''' ''1'')) (to_duration D ''-h'')"
    by (rule to_duration_first_component) (simp_all add: is_digit_def)
  moreover have "to_duration D (''+'' @ '''') = Inl Invalid_argument"
    by (rule to_duration_no_unit) simp_all
  moreover have "to_duration D ('''' @ ''1'' @ suffix Seconds @ ''-'')
      = map_sum id (\<lambda>v. v + duration_cast D Seconds (raw_count '''' ''1'')) (to_duration D (''-'' @ ''''))"
    by (simp only: append_Nil2, rule to_duration_first_component) (simp_all add: is_digit_def)
  moreover have "to_duration D (''-'' @ '''') = Inl Invalid_argument"
    by (rule to_duration_no_unit) simp_all
  ultimately show ?thesis
    by (simp add: raw_count_def decimal_def digit_value_def)
qed

section \<open>Concatenation\<close>

text \<open>
  Claim C3 says that the parse of a concatenation is the sum of the parses. The texts
  \<open>1m\<close> and \<open>s\<close> both parse (the second only because a component without digits is accepted,
  against the documented format), to 60000 and 0 milliseconds; their concatenation is the
  text \<open>1ms\<close>, one millisecond.
\<close>

theorem to_duration_append_lookahead:
  "to_duration Milliseconds ''1m'' = Inr 60000
   \<and> to_duration Milliseconds ''s'' = Inr 0
   \<and> to_duration Milliseconds (''1m'' @ ''s'') = Inr 1"
  by (simp add: to_duration_eval)

text \<open>
  A text \<open>B\<close> of the documented format does not begin with \<open>s\<close>, and for such a text the
  parse of \<open>A @ B\<close> is the sum (lemma \<open>to_duration_append\<close>). The examples of the claim
  are of this kind.
\<close>

lemma to_duration_append_examples:
  "to_duration Hours (''1h'' @ ''1h'') = Inr 2"
  "to_duration Nanoseconds ''1h1m1s1ms1us1ns'' = Inr (3600000000000 + 60000000000 + 1000000000 + 1000000 + 1000 + 1)"
  "to_duration Nanoseconds ''1h'' = Inr 3600000000000"
  "to_duration Nanoseconds ''1m'' = Inr 60000000000"
  "to_duration Nanoseconds ''1s'' = Inr 1000000000"
  "to_duration Nanoseconds ''1ms'' = Inr 1000000"
  "to_duration Nanoseconds ''1us'' = Inr 1000"
  "to_duration Nanoseconds ''1ns'' = Inr 1"
  by (simp_all add: to_duration_eval)

section \<open>Minutes and milliseconds\<close>

text \<open>
  Claim C4. In the unit position of a component, wherever it stands behind successfully
  parsed text \<open>A\<close>, an \<open>m\<close> followed by \<open>s\<close> is milliseconds and the scan goes on behind the
  \<open>s\<close>; an \<open>m\<close> not followed by \<open>s\<close> is minutes and the scan goes on at the lookahead
  character itself, which starts the next component (the switch returns the cursor
  \<open>it + 2\<close> in the first case and \<open>it + 1\<close> in the second). So \<open>1m\<close> is one minute, \<open>1ms\<close> is
  one millisecond and \<open>1m30s\<close> is one minute plus thirty seconds.
\<close>

theorem to_duration_minutes_or_milliseconds:
  assumes "to_duration D A = Inr a"
    and "sg \<in> {'''', ''+'', ''-''}" and "\<forall>d \<in> set ds. is_digit d"
  shows "to_duration D (A @ sg @ ds @ ''m'' @ rest)
           = (if rest \<noteq> [] \<and> hd rest = CHR ''s''
              then map_sum id (\<lambda>v. a + duration_cast D Milliseconds (raw_count sg ds) + v)
                     (to_duration D (tl rest))
              else map_sum id (\<lambda>v. a + duration_cast D Minutes (raw_count sg ds) + v)
                     (to_duration D rest))
       \<and> unit_switch D (p @ ''ms'' @ r) (length p) n tmp
           = Inr (length p + 2, tmp + duration_cast D Milliseconds n)
       \<and> (c \<noteq> CHR ''s'' \<longrightarrow>
            unit_switch D (p @ ''m'' @ c # r) (length p) n tmp
              = Inr (length p + 1, tmp + duration_cast D Minutes n))
       \<and> to_duration Minutes ''1m'' = Inr 1
       \<and> to_duration Milliseconds ''1ms'' = Inr 1
       \<and> to_duration Milliseconds ''1m'' = Inr 60000
       \<and> to_duration Seconds ''1m30s'' = Inr 90
       \<and> to_duration D ''1m30s'' = Inr (duration_cast D Minutes 1 + duration_cast D Seconds 30)"
proof -
  have "hd (sg @ ds @ CHR ''m'' # rest) \<noteq> CHR ''s''"
    using assms(2,3) by (rule component_head) simp
  then have app: "to_duration D (A @ sg @ ds @ ''m'' @ rest)
          = map_sum id (\<lambda>v. a + v) (to_duration D (sg @ ds @ ''m'' @ rest))"
    using to_duration_append_result [OF assms(1), of "sg @ ds @ ''m'' @ rest"] by simp
  have "to_duration D (A @ sg @ ds @ ''m'' @ rest)
           = (if rest \<noteq> [] \<and> hd rest = CHR ''s''
              then map_sum id (\<lambda>v. a + duration_cast D Milliseconds (raw_count sg ds) + v)
                     (to_duration D (tl rest))
              else map_sum id (\<lambda>v. a + duration_cast D Minutes (raw_count sg ds) + v)
                     (to_duration D rest))"
  proof (cases "rest \<noteq> [] \<and> hd rest = CHR ''s''")
    case True
    then have "sg @ ds @ ''m'' @ rest = sg @ ds @ suffix Milliseconds @ tl rest"
      by (cases rest) simp_all
    then have "to_duration D (sg @ ds @ ''m'' @ rest)
        = map_sum id (\<lambda>v. v + duration_cast D Milliseconds (raw_count sg ds))
            (to_duration D (tl rest))"
      using to_duration_first_component [OF assms(2,3), of Milliseconds "tl rest" D] by simp
    with app True show ?thesis
      by (simp add: map_sum_add_add)
  next
    case False
    then have "to_duration D (sg @ ds @ ''m'' @ rest)
        = map_sum id (\<lambda>v. v + duration_cast D Minutes (raw_count sg ds)) (to_duration D rest)"
      using to_duration_first_component [OF assms(2,3), of Minutes rest D] by auto
    with app False show ?thesis
      by (auto simp add: map_sum_add_add)
  qed
  moreover have "unit_switch D (p @ ''ms'' @ r) (length p) n tmp
           = Inr (length p + 2, tmp + duration_cast D Milliseconds n)"
    by (simp add: unit_switch_def deref_def nth_append)
  moreover have "c \<noteq> CHR ''s'' \<longrightarrow>
            unit_switch D (p @ ''m'' @ c # r) (length p) n tmp
              = Inr (length p + 1, tmp + duration_cast D Minutes n)"
    by (simp add: unit_switch_def deref_def nth_append)
  moreover have "to_duration Minutes ''1m'' = Inr 1" "to_duration Milliseconds ''1ms'' = Inr 1"
    "to_duration Milliseconds ''1m'' = Inr 60000" "to_duration Seconds ''1m30s'' = Inr 90"
    by (simp_all add: to_duration_eval)
  moreover have "to_duration D ''1m30s'' = Inr (duration_cast D Minutes 1 + duration_cast D Seconds 30)"
    using to_duration_first_component [of "[]" "''1''" Minutes "''30s''" D]
      to_duration_component [of "[]" "''30''" D Seconds]
    by (simp add: is_digit_def raw_count_def decimal_def digit_value_def add.commute)
  ultimately show ?thesis
    by (simp only: simp_thms)
qed

theorem to_duration_minutes_or_milliseconds_witness:
  "to_duration Seconds ''1h'' = Inr 3600
   \<and> to_duration Seconds ''1h-2m30s'' = Inr 3510
   \<and> to_duration Microseconds ''1s'' = Inr 1000000
   \<and> to_duration Microseconds ''1s+3ms1us'' = Inr 1003001
   \<and> unit_switch Seconds ''1m30s'' 1 1 0 = Inr (2, 60)"
  using to_duration_minutes_or_milliseconds [of Seconds "''1h''" 3600 "''-''" "''2''" "''30s''" "''1''" "''''" 0 0 "CHR ''3''"]
    to_duration_minutes_or_milliseconds [of Microseconds "''1s''" 1000000 "''+''" "''3''" "''s1us''" "''1''" "''0s''" 1 0 "CHR ''3''"]
  by (simp add: to_duration_eval)

section \<open>Sign handling\<close>

text \<open>
  Claim C5, as amended. The tick count of each component, wherever it stands in the text
  (behind successfully parsed text \<open>A\<close> and before any rest), is the count that standard
  sign-magnitude accumulation gives, for every run of digits: it is what the component
  adds to the result, converted to the target resolution, and what parsing the component
  alone at the resolution of its own unit returns. For a run of digits whose signed value
  lies between \<open>- 2^63\<close> and \<open>2^63 - 1\<close> the count is that value: the decimal value of the
  digits, negated exactly when the sign is \<open>-\<close>. In particular \<open>1h-1h\<close> yields zero at every
  resolution and \<open>-1s\<close> yields \<open>-1\<close> at second resolution.
\<close>

theorem to_duration_sign:
  assumes "to_duration D A = Inr a"
    and "sg \<in> {'''', ''+'', ''-''}" and "ds \<noteq> []" and "\<forall>d \<in> set ds. is_digit d"
    and "U = Minutes \<longrightarrow> rest = [] \<or> hd rest \<noteq> CHR ''s''"
  shows "to_duration D (A @ sg @ ds @ suffix U @ rest)
           = map_sum id (\<lambda>v. a + duration_cast D U (sign_magnitude sg ds) + v)
               (to_duration D rest)
       \<and> to_duration D (sg @ ds @ suffix U) = Inr (duration_cast D U (sign_magnitude sg ds))
       \<and> to_duration U (sg @ ds @ suffix U) = Inr (sign_magnitude sg ds)
       \<and> (- (2 ^ 63) \<le> signed_decimal sg ds \<and> signed_decimal sg ds < 2 ^ 63 \<longrightarrow>
            sint (sign_magnitude sg ds) = signed_decimal sg ds)
       \<and> signed_decimal sg ds
           = (if sg = ''-'' then - int (decimal ds) else int (decimal ds))
       \<and> to_duration D ''1h-1h'' = Inr 0
       \<and> to_duration Seconds ''-1s'' = Inr (- 1) \<and> sint (- 1 :: rep) = - 1"
proof -
  have "hd (sg @ ds @ suffix U @ rest) \<noteq> CHR ''s''"
    using assms(2,3,4) by (rule component_head_digits)
  then have "to_duration D (A @ sg @ ds @ suffix U @ rest)
        = map_sum id (\<lambda>v. a + v) (to_duration D (sg @ ds @ suffix U @ rest))"
    using to_duration_append_result [OF assms(1), of "sg @ ds @ suffix U @ rest"] by simp
  also have "to_duration D (sg @ ds @ suffix U @ rest)
        = map_sum id (\<lambda>v. v + duration_cast D U (sign_magnitude sg ds)) (to_duration D rest)"
    unfolding sign_magnitude_raw_count using assms(2,4,5) by (rule to_duration_first_component)
  finally have "to_duration D (A @ sg @ ds @ suffix U @ rest)
           = map_sum id (\<lambda>v. a + duration_cast D U (sign_magnitude sg ds) + v)
               (to_duration D rest)"
    by (simp only: map_sum_add_add)
  moreover have single:
    "to_duration D' (sg @ ds @ suffix U) = Inr (duration_cast D' U (sign_magnitude sg ds))"
    for D'
    using assms(2,4) by (simp add: to_duration_component sign_magnitude_raw_count)
  from single [of U] single [of D]
  have "to_duration U (sg @ ds @ suffix U) = Inr (sign_magnitude sg ds)"
    and "to_duration D (sg @ ds @ suffix U) = Inr (duration_cast D U (sign_magnitude sg ds))"
    by (simp_all add: duration_cast_same)
  moreover have "- (2 ^ 63) \<le> signed_decimal sg ds \<and> signed_decimal sg ds < 2 ^ 63 \<longrightarrow>
      sint (sign_magnitude sg ds) = signed_decimal sg ds"
    using sint_raw_count_signed [of sg ds] by (simp add: sign_magnitude_raw_count)
  moreover have "signed_decimal sg ds
           = (if sg = ''-'' then - int (decimal ds) else int (decimal ds))"
    by (rule signed_decimal_def)
  moreover have "to_duration D ''1h-1h'' = Inr 0"
    by (cases D) (simp_all add: to_duration_eval)
  moreover have "to_duration Seconds ''-1s'' = Inr (- 1)"
    by (simp add: to_duration_eval)
  ultimately show ?thesis
    by (simp only: simp_thms sint_n1)
qed

theorem to_duration_sign_witness:
  "to_duration Hours ''-1h'' = Inr (- 1)
   \<and> to_duration Hours ''-1h1h'' = Inr 0
   \<and> to_duration Seconds ''-1m'' = Inr (- 60)
   \<and> to_duration Seconds ''-1m30s'' = Inr (- 30)
   \<and> to_duration Seconds ''1m'' = Inr 60
   \<and> to_duration Seconds ''1m-90s+5s'' = Inr (- 25)
   \<and> to_duration Milliseconds ''-90s'' = Inr (- 90000)
   \<and> sign_magnitude ''-'' ''90'' = - 90
   \<and> signed_decimal ''-'' ''90'' = - 90
   \<and> sint (- 90 :: rep) = - 90
   \<and> to_duration Seconds ''-9223372036854775808s'' = Inr (- 9223372036854775808)
   \<and> signed_decimal ''-'' ''9223372036854775808'' = - 9223372036854775808
   \<and> sint (- 9223372036854775808 :: rep) = - 9223372036854775808"
  using to_duration_sign [of Hours "''-1h''" "- 1" "''''" "''1''" Hours "''''"]
    to_duration_sign [of Seconds "''-1m''" "- 60" "''''" "''30''" Seconds "''''"]
    to_duration_sign [of Seconds "''1m''" 60 "''-''" "''90''" Seconds "''+5s''"]
    to_duration_sign [of Milliseconds "''''" 0 "''-''" "''90''" Seconds "''''"]
    to_duration_sign [of Seconds "''''" 0 "''-''" "''9223372036854775808''" Seconds "''''"]
  by (simp add: is_digit_def sign_magnitude_def signed_decimal_def decimal_def digit_value_def
        to_duration_eval)

text \<open>
  The digits of \<open>+9223372036854775808h\<close> denote \<open>2^63\<close> and the sign is \<open>+\<close>, but the count
  returned at hour resolution is negative.
\<close>

theorem to_duration_sign_overflow:
  "to_duration Hours ''+9223372036854775808h'' = Inr (- 9223372036854775808)
   \<and> sint (- 9223372036854775808 :: rep) = - 9223372036854775808
   \<and> int (decimal ''9223372036854775808'') = 9223372036854775808"
  by (simp add: to_duration_eval decimal_def digit_value_def)

section \<open>Two target resolutions\<close>

text \<open>
  Claim C6, as amended. Let \<open>R1\<close> (fine) and \<open>R2\<close> (coarse, its tick a multiple of that of
  \<open>R1\<close>) be two target resolutions, and take a component whose conversion to \<open>R1\<close> does not
  overflow: its unit is finer than \<open>R1\<close>, or its signed value times the number of \<open>R1\<close> ticks
  per unit lies between \<open>- 2^63\<close> and \<open>2^63 - 1\<close>. For the text of that single component the
  result at \<open>R2\<close> is the result at \<open>R1\<close> divided by the number of \<open>R1\<close> ticks per \<open>R2\<close> tick, the
  quotient truncated towards zero. Behind successfully parsed text \<open>A\<close> the component adds
  to the result at \<open>R2\<close> the truncated quotient of what it adds to the result at \<open>R1\<close>: the
  results for a text of several components are sums of such quotients, not quotients
  of the sums.
\<close>

theorem to_duration_coarser_resolution:
  assumes "sg \<in> {'''', ''+'', ''-''}" and "ds \<noteq> []" and "\<forall>d \<in> set ds. is_digit d"
    and "period R1 \<le> period R2"
    and "period R1 \<le> period U \<longrightarrow>
           - (2 ^ 63) \<le> signed_decimal sg ds * int (period U div period R1)
           \<and> signed_decimal sg ds * int (period U div period R1) < 2 ^ 63"
  shows "(\<exists>r1 r2. to_duration R1 (sg @ ds @ suffix U) = Inr r1
           \<and> to_duration R2 (sg @ ds @ suffix U) = Inr r2
           \<and> r2 = rep_div r1 (of_nat (period R2 div period R1))
           \<and> sint r2 = sint r1 sdiv int (period R2 div period R1))
       \<and> (to_duration R1 A = Inr a1 \<and> to_duration R2 A = Inr a2 \<longrightarrow>
            (\<exists>x1 x2. to_duration R1 (A @ sg @ ds @ suffix U) = Inr (a1 + x1)
               \<and> to_duration R2 (A @ sg @ ds @ suffix U) = Inr (a2 + x2)
               \<and> x2 = rep_div x1 (of_nat (period R2 div period R1))
               \<and> sint x2 = sint x1 sdiv int (period R2 div period R1)))
       \<and> signed_decimal sg ds
           = (if sg = ''-'' then - int (decimal ds) else int (decimal ds))"
proof -
  define n where "n = raw_count sg ds"
  define a where "a = period U div period R1"
  define v where "v = signed_decimal sg ds"
  have range: "- (2 ^ 63) \<le> sint n * int a \<and> sint n * int a < 2 ^ 63"
  proof (cases "period R1 \<le> period U")
    case True
    then have a1: "1 \<le> int a"
      using period_div_pos [OF True] by (simp add: a_def)
    from assms(5) True have va: "- (2 ^ 63) \<le> v * int a" "v * int a < 2 ^ 63"
      by (simp_all add: v_def a_def)
    have "- (2 ^ 63) \<le> v \<and> v < 2 ^ 63"
    proof (cases "0 \<le> v")
      case True
      then have "v * 1 \<le> v * int a"
        using a1 by (intro mult_left_mono)
      then have "v \<le> v * int a"
        by (simp only: mult_1_right)
      with va(2) True show ?thesis by linarith
    next
      case False
      then have "v * int a \<le> v * 1"
        using a1 by (intro mult_left_mono_neg) simp_all
      then have "v * int a \<le> v"
        by (simp only: mult_1_right)
      with va(1) False show ?thesis by linarith
    qed
    then have "sint n = v"
      unfolding n_def v_def using sint_raw_count_signed [of sg ds] by blast
    with va show ?thesis by simp
  next
    case False
    then have "a = 0"
      by (simp add: a_def)
    then show ?thesis by simp
  qed
  have eq: "duration_cast R2 U n = rep_div (duration_cast R1 U n) (of_nat (period R2 div period R1))"
    using assms(4) range unfolding a_def by (intro duration_cast_coarser) simp_all
  have "sint (rep_div (duration_cast R1 U n) (of_nat (period R2 div period R1)))
          = sint (duration_cast R1 U n) sdiv int (period R2 div period R1)"
    using period_div_pos [OF assms(4)] period_div_less [of R2 R1] by (rule sint_rep_div)
  with eq have "sint (duration_cast R2 U n)
          = sint (duration_cast R1 U n) sdiv int (period R2 div period R1)"
    by simp
  then have quot: "duration_cast R2 U n
        = rep_div (duration_cast R1 U n) (of_nat (period R2 div period R1))
      \<and> sint (duration_cast R2 U n)
          = sint (duration_cast R1 U n) sdiv int (period R2 div period R1)"
    using eq by simp
  have single: "to_duration R (sg @ ds @ suffix U) = Inr (duration_cast R U n)" for R
    using assms(1,3) by (simp add: to_duration_component n_def)
  have "hd (sg @ ds @ suffix U) \<noteq> CHR ''s''"
    using assms(1,2,3) by (rule component_head_digits)
  then have "to_duration R (A @ sg @ ds @ suffix U) = Inr (a + duration_cast R U n)"
    if "to_duration R A = Inr a" for R a
    using to_duration_append [OF that single [of R]] by simp
  then have "to_duration R1 A = Inr a1 \<and> to_duration R2 A = Inr a2 \<longrightarrow>
      (\<exists>x1 x2. to_duration R1 (A @ sg @ ds @ suffix U) = Inr (a1 + x1)
         \<and> to_duration R2 (A @ sg @ ds @ suffix U) = Inr (a2 + x2)
         \<and> x2 = rep_div x1 (of_nat (period R2 div period R1))
         \<and> sint x2 = sint x1 sdiv int (period R2 div period R1))"
    using quot by blast
  moreover have "\<exists>r1 r2. to_duration R1 (sg @ ds @ suffix U) = Inr r1
           \<and> to_duration R2 (sg @ ds @ suffix U) = Inr r2
           \<and> r2 = rep_div r1 (of_nat (period R2 div period R1))
           \<and> sint r2 = sint r1 sdiv int (period R2 div period R1)"
    using quot single by blast
  moreover have "signed_decimal sg ds
           = (if sg = ''-'' then - int (decimal ds) else int (decimal ds))"
    by (rule signed_decimal_def)
  ultimately show ?thesis
    by (simp only: simp_thms)
qed

theorem to_duration_coarser_resolution_witness:
  "period Milliseconds \<le> period Minutes
   \<and> period Milliseconds \<le> period Seconds
   \<and> signed_decimal ''-'' ''90'' * int (period Seconds div period Milliseconds) = - 90000
   \<and> to_duration Milliseconds ''-90s'' = Inr (- 90000)
   \<and> to_duration Minutes ''-90s'' = Inr (- 1)
   \<and> rep_div (- 90000) (of_nat (period Minutes div period Milliseconds)) = - 1
   \<and> to_duration Milliseconds ''1h'' = Inr 3600000
   \<and> to_duration Minutes ''1h'' = Inr 60
   \<and> to_duration Milliseconds ''1h-90s'' = Inr (3600000 + - 90000)
   \<and> to_duration Minutes ''1h-90s'' = Inr (60 + - 1)
   \<and> to_duration Microseconds ''9223372036854775808ns'' = Inr (- 9223372036854775)
   \<and> to_duration Milliseconds ''9223372036854775808ns'' = Inr (- 9223372036854)
   \<and> rep_div (- 9223372036854775) (of_nat (period Milliseconds div period Microseconds))
       = - 9223372036854"
  using to_duration_coarser_resolution
    [of "''-''" "''90''" Milliseconds Minutes Seconds "''1h''" 3600000 60]
    to_duration_coarser_resolution
    [of "''''" "''9223372036854775808''" Microseconds Milliseconds Nanoseconds "''''" 0 0]
  by (simp add: is_digit_def signed_decimal_def decimal_def digit_value_def to_duration_eval)

text \<open>
  With two components the conversion truncates each component before the sum is formed:
  \<open>30s30s\<close> is 60 seconds, but zero minutes. And a count that does not fit at the fine
  resolution is not the multiple of the count at the coarse one: \<open>3000000h\<close> is 10800000000
  seconds, but the count returned at nanosecond resolution is negative.
\<close>

theorem to_duration_coarser_resolution_counterexamples:
  "to_duration Seconds ''30s30s'' = Inr 60
   \<and> to_duration Minutes ''30s30s'' = Inr 0
   \<and> rep_div 60 (of_nat (period Minutes div period Seconds)) = 1
   \<and> to_duration Nanoseconds ''3000000h'' = Inr (- 7646744073709551616)
   \<and> sint (- 7646744073709551616 :: rep) = - 7646744073709551616
   \<and> to_duration Seconds ''3000000h'' = Inr 10800000000
   \<and> rep_div (- 7646744073709551616) (of_nat (period Seconds div period Nanoseconds))
       = - 7646744073"
  by (simp add: to_duration_eval)

section \<open>Malformed input\<close>

text \<open>
  Claim C7. Parsing fails with \<open>std::invalid_argument\<close>, the only error the parser raises,
  and returns no value, whenever the unit suffix of a component is invalid, wherever the
  component stands behind successfully parsed text \<open>A\<close>: its first character is not one of
  \<open>n\<close>, \<open>u\<close>, \<open>m\<close>, \<open>s\<close>, \<open>h\<close> (as in \<open>12z\<close> and \<open>invalid\<close>; upper case letters are not
  recognized), or it is an \<open>n\<close> or \<open>u\<close> that is not followed by \<open>s\<close>, at the end of the input
  or before another character. The failure of a later part of the text is the result of
  the whole parse: no partial sum is returned.
\<close>

theorem to_duration_invalid_suffix:
  assumes "to_duration D A = Inr a"
    and "sg \<in> {'''', ''+'', ''-''}" and "\<forall>d \<in> set ds. is_digit d"
  shows "(\<not> is_digit c \<and> c \<notin> {CHR ''n'', CHR ''u'', CHR ''m'', CHR ''s'', CHR ''h''}
            \<and> (sg @ ds = [] \<longrightarrow> c \<noteq> CHR ''+'' \<and> c \<noteq> CHR ''-'')
          \<longrightarrow> to_duration D (A @ sg @ ds @ c # rest) = Inl Invalid_argument)
       \<and> ((c = CHR ''n'' \<or> c = CHR ''u'') \<and> (rest = [] \<or> hd rest \<noteq> CHR ''s'')
          \<longrightarrow> to_duration D (A @ sg @ ds @ c # rest) = Inl Invalid_argument)
       \<and> (B \<noteq> [] \<and> hd B \<noteq> CHR ''s'' \<and> to_duration D B = Inl Invalid_argument
          \<longrightarrow> to_duration D (A @ B) = Inl Invalid_argument)
       \<and> to_duration D ''12z'' = Inl Invalid_argument
       \<and> to_duration D ''invalid'' = Inl Invalid_argument
       \<and> to_duration D ''1n'' = Inl Invalid_argument
       \<and> to_duration D ''1u'' = Inl Invalid_argument
       \<and> to_duration D ''1S'' = Inl Invalid_argument
       \<and> to_duration D ''1Ms'' = Inl Invalid_argument
       \<and> to_duration D ''1h1H'' = Inl Invalid_argument"
proof -
  have app: "to_duration D (A @ sg @ ds @ c # rest)
          = map_sum id (\<lambda>v. a + v) (to_duration D (sg @ ds @ c # rest))"
    if "c \<noteq> CHR ''s''"
    using to_duration_append_result [OF assms(1), of "sg @ ds @ c # rest"]
      component_head [OF assms(2,3) that, of rest] by simp
  have "\<not> is_digit c \<and> c \<notin> {CHR ''n'', CHR ''u'', CHR ''m'', CHR ''s'', CHR ''h''}
            \<and> (sg @ ds = [] \<longrightarrow> c \<noteq> CHR ''+'' \<and> c \<noteq> CHR ''-'')
          \<longrightarrow> to_duration D (A @ sg @ ds @ c # rest) = Inl Invalid_argument"
    using to_duration_unrecognized [OF assms(2,3), of c D rest] app by auto
  moreover have "(c = CHR ''n'' \<or> c = CHR ''u'') \<and> (rest = [] \<or> hd rest \<noteq> CHR ''s'')
          \<longrightarrow> to_duration D (A @ sg @ ds @ c # rest) = Inl Invalid_argument"
    using to_duration_missing_s [OF assms(2,3), of c rest D] app by auto
  moreover have "B \<noteq> [] \<and> hd B \<noteq> CHR ''s'' \<and> to_duration D B = Inl Invalid_argument
          \<longrightarrow> to_duration D (A @ B) = Inl Invalid_argument"
    using to_duration_append_result [OF assms(1), of B] by auto
  moreover have "to_duration D ''12z'' = Inl Invalid_argument"
    "to_duration D ''invalid'' = Inl Invalid_argument"
    "to_duration D ''1n'' = Inl Invalid_argument" "to_duration D ''1u'' = Inl Invalid_argument"
    "to_duration D ''1S'' = Inl Invalid_argument" "to_duration D ''1Ms'' = Inl Invalid_argument"
    by (simp_all add: to_duration_def to_duration_range_def c_str_def to_duration_loop.simps
          component_def unit_switch_def digits_loop.simps deref_def Let_def)
  moreover have "to_duration D ''1h1H'' = Inl Invalid_argument"
    using to_duration_first_component [of "[]" "''1''" Hours "''1H''" D]
      to_duration_unrecognized [of "[]" "''1''" "CHR ''H''" D "[]"]
    by (simp add: is_digit_def)
  ultimately show ?thesis
    by (simp only: simp_thms)
qed

theorem to_duration_invalid_suffix_witness:
  "to_duration Seconds ''1m30s'' = Inr 90
   \<and> to_duration Seconds ''1m30s-5 s'' = Inl Invalid_argument
   \<and> to_duration Seconds ''1m30s-5nm'' = Inl Invalid_argument
   \<and> to_duration Seconds ''1m30s7x'' = Inl Invalid_argument"
  using to_duration_invalid_suffix [of Seconds "''1m30s''" 90 "''-''" "''5''" "CHR '' ''" "''s''" "''7x''"]
    to_duration_invalid_suffix [of Seconds "''1m30s''" 90 "''-''" "''5''" "CHR ''n''" "''m''" "''7x''"]
  by (simp add: is_digit_def to_duration_eval)

section \<open>Empty input\<close>

text \<open>
  Claim C8. The empty input is valid: at every target resolution parsing it succeeds and
  yields the zero duration.
\<close>

theorem to_duration_empty: "to_duration D '''' = Inr 0"
  by (simp add: to_duration_def to_duration_range_def to_duration_loop.simps)

section \<open>Termination and cost\<close>

text \<open>
  Claim C9. Every call on a string returns: either a value or \<open>std::invalid_argument\<close>
  (never a read outside the string and its terminator). Every iteration of the outer
  loop that does not throw returns a cursor strictly greater than the one it started
  from, and at most \<open>last\<close>; the minute case, which steps back once, is no exception. The
  number of loop bodies executed, inner and outer together, is at most twice the length
  of the input.
\<close>

theorem to_duration_terminates:
  "((\<exists>v. to_duration D str = Inr v) \<or> to_duration D str = Inl Invalid_argument)
   \<and> (it < length str \<and> component D (c_str str) (length str) it tmp = Inr (it', tmp')
        \<longrightarrow> it < it' \<and> it' \<le> length str)
   \<and> T_to_duration D str \<le> 2 * length str"
proof -
  have "(\<exists>v. to_duration D str = Inr v) \<or> to_duration D str = Inl Invalid_argument"
  proof (cases "to_duration D str")
    case (Inl e)
    with to_duration_in_bounds [of D str] show ?thesis
      by (cases e) simp_all
  next
    case (Inr v)
    then show ?thesis by simp
  qed
  moreover have "it < length str \<and> component D (c_str str) (length str) it tmp = Inr (it', tmp')
        \<longrightarrow> it < it' \<and> it' \<le> length str"
    using component_in_bounds(2) [of it str D tmp it' tmp'] by blast
  moreover have "T_to_duration D str \<le> 2 * length str"
    using T_to_duration_loop_bound [of 0 str D 0] by (simp add: T_to_duration_def)
  ultimately show ?thesis
    by (simp only: simp_thms)
qed

theorem to_duration_terminates_witness:
  "to_duration Seconds ''1m30s'' = Inr 90
   \<and> component Seconds (c_str ''1m30s'') 5 0 0 = Inr (2, 60)
   \<and> T_to_duration Seconds ''1m30s'' \<le> 10"
  using to_duration_terminates [of Seconds "''1m30s''" 0 0 2 60]
  by (simp add: to_duration_eval)

section \<open>Reads at the end position\<close>

text \<open>
  Claim C10. When the input ends in the middle of a component the scanner reads the
  character at \<open>last\<close>: on a range without a terminator, trailing digits or a trailing sign
  make the unit switch read \<open>last\<close>, and a trailing \<open>n\<close>, \<open>u\<close> or \<open>m\<close> makes the lookahead
  read it. What the parse returns depends on the character found there: with the
  terminating null of a string the incomplete components are rejected and a final \<open>m\<close> is
  minutes (so \<open>1m\<close> is one minute); with an \<open>s\<close> there the \<open>m\<close> is taken for milliseconds
  and the cursor moves past \<open>last\<close>.
\<close>

theorem to_duration_reads_end_position:
  assumes "sg \<in> {'''', ''+'', ''-''}" and "\<forall>d \<in> set ds. is_digit d"
  shows "(sg @ ds \<noteq> [] \<longrightarrow>
            to_duration_loop D (pre @ sg @ ds) (length (pre @ sg @ ds)) (length pre) tmp
              = Inl Out_of_bounds)
       \<and> (c \<in> {CHR ''n'', CHR ''u'', CHR ''m''} \<longrightarrow>
            to_duration_loop D (pre @ sg @ ds @ [c]) (length (pre @ sg @ ds @ [c])) (length pre) tmp
              = Inl Out_of_bounds)
       \<and> (sg @ ds \<noteq> [] \<longrightarrow> to_duration D (sg @ ds) = Inl Invalid_argument)
       \<and> (c \<in> {CHR ''n'', CHR ''u''} \<longrightarrow> to_duration D (sg @ ds @ [c]) = Inl Invalid_argument)
       \<and> to_duration D (sg @ ds @ ''m'') = Inr (duration_cast D Minutes (raw_count sg ds))
       \<and> component D (pre @ sg @ ds @ ''m'' @ ''s'') (length (pre @ sg @ ds @ ''m''))
            (length pre) tmp
           = Inr (length (pre @ sg @ ds @ ''m'') + 1,
                  tmp + duration_cast D Milliseconds (raw_count sg ds))
       \<and> to_duration Minutes ''1m'' = Inr 1
       \<and> to_duration_range Minutes ''1m'' 0 2 = Inl Out_of_bounds"
proof -
  have "sg @ ds \<noteq> [] \<longrightarrow>
      to_duration_loop D (pre @ sg @ ds) (length (pre @ sg @ ds)) (length pre) tmp
        = Inl Out_of_bounds"
    using component_reads_last [OF assms, of "pre @ sg @ ds" pre D tmp]
    by (simp add: to_duration_loop.simps [of _ _ _ "length pre"])
  moreover have "c \<in> {CHR ''n'', CHR ''u'', CHR ''m''} \<longrightarrow>
      to_duration_loop D (pre @ sg @ ds @ [c]) (length (pre @ sg @ ds @ [c])) (length pre) tmp
        = Inl Out_of_bounds"
    using component_lookahead_reads_last [OF assms, of c "pre @ sg @ ds @ [c]" pre D tmp]
    by (simp add: to_duration_loop.simps [of _ _ _ "length pre"])
  moreover have "sg @ ds \<noteq> [] \<longrightarrow> to_duration D (sg @ ds) = Inl Invalid_argument"
    using to_duration_no_unit [OF assms, of D] by blast
  moreover have "c \<in> {CHR ''n'', CHR ''u''} \<longrightarrow> to_duration D (sg @ ds @ [c]) = Inl Invalid_argument"
    using to_duration_missing_s [OF assms, of c "[]" D] by blast
  moreover have "to_duration D (sg @ ds @ ''m'') = Inr (duration_cast D Minutes (raw_count sg ds))"
    using to_duration_component [OF assms, of D Minutes] by simp
  moreover note component_lookahead_past_last [OF assms, of D pre tmp]
  moreover have "to_duration Minutes ''1m'' = Inr 1"
    "to_duration_range Minutes ''1m'' 0 2 = Inl Out_of_bounds"
    by (simp_all add: to_duration_eval)
  ultimately show ?thesis
    by (simp only: simp_thms)
qed

theorem to_duration_reads_end_position_witness:
  "to_duration_range Seconds ''1s-25'' 0 5 = Inl Out_of_bounds
   \<and> to_duration_range Seconds ''1s-25u'' 0 6 = Inl Out_of_bounds
   \<and> to_duration Seconds ''-25'' = Inl Invalid_argument
   \<and> to_duration Seconds ''-25u'' = Inl Invalid_argument
   \<and> to_duration Seconds ''-25m'' = Inr (- 1500)
   \<and> component Milliseconds ''1s-25ms'' 6 2 1000 = Inr (7, 975)"
  using to_duration_reads_end_position [of "''-''" "''25''" Seconds "''1s''" 1 "CHR ''u''"]
    to_duration_reads_end_position [of "''-''" "''25''" Milliseconds "''1s''" 1000 "CHR ''u''"]
  by (simp add: to_duration_eval is_digit_def raw_count_def decimal_def digit_value_def)

end
